theory Spec2Isabelle
  imports Main
begin

section \<open>Strings\<close>

text \<open>
  A text is a sequence of code units. The model uses 8-bit code units (type \<open>char\<close>),
  read as the code points U+0000 to U+00FF; every pattern of the program is written
  with ASCII characters only.
\<close>

definition code :: "char \<Rightarrow> int" where
  "code c = of_char c"

definition isDigit :: "char \<Rightarrow> bool" where
  "isDigit c = (48 \<le> code c \<and> code c \<le> 57)"

definition isUpperAZ :: "char \<Rightarrow> bool" where
  "isUpperAZ c = (65 \<le> code c \<and> code c \<le> 90)"

text \<open>White space and line terminators of the language, as used by \<open>\s\<close> and by \<open>trim\<close>:
  TAB, LF, VT, FF, CR, SPACE and NBSP.\<close>

definition isSpace :: "char \<Rightarrow> bool" where
  "isSpace c = ((9 \<le> code c \<and> code c \<le> 13) \<or> code c = 32 \<or> code c = 160)"

text \<open>The word characters of \<open>\w\<close> and \<open>\b\<close>: letters, digits and underscore.\<close>

definition isWordChar :: "char \<Rightarrow> bool" where
  "isWordChar c = ((97 \<le> code c \<and> code c \<le> 122) \<or> (65 \<le> code c \<and> code c \<le> 90)
     \<or> (48 \<le> code c \<and> code c \<le> 57) \<or> code c = 95)"

definition lowerChar :: "char \<Rightarrow> char" where
  "lowerChar c = (if (65 \<le> code c \<and> code c \<le> 90) \<or> (192 \<le> code c \<and> code c \<le> 222 \<and> code c \<noteq> 215)
     then char_of (code c + 32) else c)"

text \<open>Upper-casing of one code unit. The sharp s (223), the micro sign (181) and y with
  diaeresis (255) have no upper-case form of one code unit in this range and stay as they are.\<close>

definition upperChar :: "char \<Rightarrow> char" where
  "upperChar c = (if (97 \<le> code c \<and> code c \<le> 122) \<or> (224 \<le> code c \<and> code c \<le> 254 \<and> code c \<noteq> 247)
     then char_of (code c - 32) else c)"

definition toLowerCase :: "string \<Rightarrow> string" where
  "toLowerCase s = map lowerChar s"

definition toUpperCase :: "string \<Rightarrow> string" where
  "toUpperCase s = map upperChar s"

definition trim :: "string \<Rightarrow> string" where
  "trim s = rev (dropWhile isSpace (rev (dropWhile isSpace s)))"

text \<open>\<open>s.slice(a, b)\<close> for \<open>0 \<le> a\<close> and \<open>0 \<le> b\<close>.\<close>

definition slice :: "string \<Rightarrow> nat \<Rightarrow> nat \<Rightarrow> string" where
  "slice s a b = take (b - a) (drop a s)"

text \<open>\<open>s.replace(/[^\d]/g, "")\<close> removes every code unit that is not a digit.\<close>

definition digitsOnly :: "string \<Rightarrow> string" where
  "digitsOnly s = filter isDigit s"

text \<open>\<open>s.replace(/\s+/g, "")\<close> removes every run of white space.\<close>

definition stripSpaces :: "string \<Rightarrow> string" where
  "stripSpaces s = filter (\<lambda>c. \<not> isSpace c) s"

text \<open>\<open>Number(s)\<close> on a string of decimal digits.\<close>

definition Number :: "string \<Rightarrow> int" where
  "Number s = foldl (\<lambda>n c. 10 * n + (code c - 48)) 0 s"

section \<open>Regular expressions\<close>

datatype citem = Ch char | Rng char char | Digit | Space

datatype regex =
    Eps
  | Cls "citem list"
  | NCls "citem list"
  | Seq regex regex
  | Alt regex regex
  | Rep nat "nat option" bool regex
  | Group regex
  | WordB
  | NotAhead "citem list"
  | NotBehind "citem list"
  | Bol
  | Eol

fun inItem :: "citem \<Rightarrow> char \<Rightarrow> bool" where
  "inItem (Ch a) c = (c = a)"
| "inItem (Rng lo hi) c = (code lo \<le> code c \<and> code c \<le> code hi)"
| "inItem Digit c = isDigit c"
| "inItem Space c = isSpace c"

definition inItems :: "citem list \<Rightarrow> char \<Rightarrow> bool" where
  "inItems its c = list_ex (\<lambda>it. inItem it c) its"

text \<open>
  Membership of a code unit in a class. Under the flag \<open>i\<close> two code units are the same
  when their canonical (upper-case) forms agree, so \<open>c\<close> is in the class when \<open>c\<close>, its
  upper-case form or its lower-case form is.
\<close>

definition inClass :: "bool \<Rightarrow> citem list \<Rightarrow> char \<Rightarrow> bool" where
  "inClass ic its c =
     (if ic then inItems its c \<or> inItems its (upperChar c) \<or> inItems its (lowerChar c)
      else inItems its c)"

text \<open>
  The state of a match: the code unit before the current position (for \<open>\b\<close> and
  lookbehind), the text from the current position on, and the text of capture group 1.
\<close>

record mstate =
  prev :: "char option"
  rest :: string
  cap :: "string option"

definition isWordOpt :: "char option \<Rightarrow> bool" where
  "isWordOpt p = (case p of None \<Rightarrow> False | Some c \<Rightarrow> isWordChar c)"

definition nextChar :: "mstate \<Rightarrow> char option" where
  "nextChar st = (case rest st of [] \<Rightarrow> None | c # cs \<Rightarrow> Some c)"

definition decMax :: "nat option \<Rightarrow> nat option" where
  "decMax mx = (case mx of None \<Rightarrow> None | Some n \<Rightarrow> Some (n - 1))"

text \<open>
  A quantifier \<open>{mn,mx}\<close> over a matcher \<open>f\<close>. The result lists the states after the match
  in the order in which a backtracking matcher tries them: a greedy quantifier tries one
  more iteration before it stops, a lazy one stops first. Once the minimum is reached an
  iteration that consumes nothing is rejected.
\<close>

function rep :: "(mstate \<Rightarrow> mstate list) \<Rightarrow> bool \<Rightarrow> nat \<Rightarrow> nat option \<Rightarrow> mstate \<Rightarrow> mstate list" where
  "rep f greedy mn mx st =
     (if mx = Some 0 then [st]
      else if 0 < mn then concat (map (rep f greedy (mn - 1) (decMax mx)) (f st))
      else if greedy then
        concat (map (rep f greedy 0 (decMax mx))
                 (filter (\<lambda>st'. length (rest st') < length (rest st)) (f st))) @ [st]
      else
        st # concat (map (rep f greedy 0 (decMax mx))
                 (filter (\<lambda>st'. length (rest st') < length (rest st)) (f st))))"
  by pat_completeness auto
termination
  by (relation "measures [\<lambda>(f, g, mn, mx, st). mn, \<lambda>(f, g, mn, mx, st). length (rest st)]") auto

declare rep.simps [simp del]

primrec matchR :: "bool \<Rightarrow> regex \<Rightarrow> mstate \<Rightarrow> mstate list" where
  "matchR ic Eps st = [st]"
| "matchR ic (Cls its) st =
     (case rest st of [] \<Rightarrow> []
      | c # cs \<Rightarrow> if inClass ic its c then [st\<lparr>prev := Some c, rest := cs\<rparr>] else [])"
| "matchR ic (NCls its) st =
     (case rest st of [] \<Rightarrow> []
      | c # cs \<Rightarrow> if inClass ic its c then [] else [st\<lparr>prev := Some c, rest := cs\<rparr>])"
| "matchR ic (Seq r1 r2) st = concat (map (matchR ic r2) (matchR ic r1 st))"
| "matchR ic (Alt r1 r2) st = matchR ic r1 st @ matchR ic r2 st"
| "matchR ic (Rep mn mx greedy r) st = rep (matchR ic r) greedy mn mx st"
| "matchR ic (Group r) st =
     map (\<lambda>st'. st'\<lparr>cap := Some (take (length (rest st) - length (rest st')) (rest st))\<rparr>)
       (matchR ic r st)"
| "matchR ic WordB st =
     (if isWordOpt (prev st) \<noteq> isWordOpt (nextChar st) then [st] else [])"
| "matchR ic (NotAhead its) st =
     (case rest st of [] \<Rightarrow> [st] | c # cs \<Rightarrow> if inClass ic its c then [] else [st])"
| "matchR ic (NotBehind its) st =
     (case prev st of None \<Rightarrow> [st] | Some c \<Rightarrow> if inClass ic its c then [] else [st])"
| "matchR ic Bol st = (if prev st = None then [st] else [])"
| "matchR ic Eol st = (if rest st = [] then [st] else [])"

text \<open>Pattern syntax: a literal string, a sequence, an alternative, and the quantifiers.\<close>

fun lit :: "string \<Rightarrow> regex" where
  "lit [] = Eps"
| "lit (c # cs) = Seq (Cls [Ch c]) (lit cs)"

fun seqs :: "regex list \<Rightarrow> regex" where
  "seqs [] = Eps"
| "seqs (r # rs) = Seq r (seqs rs)"

fun alts :: "regex \<Rightarrow> regex list \<Rightarrow> regex" where
  "alts r [] = r"
| "alts r (r' # rs) = Alt r (alts r' rs)"

definition rStar :: "regex \<Rightarrow> regex" where "rStar r = Rep 0 None True r"
definition rLazyStar :: "regex \<Rightarrow> regex" where "rLazyStar r = Rep 0 None False r"
definition rPlus :: "regex \<Rightarrow> regex" where "rPlus r = Rep 1 None True r"
definition rOpt :: "regex \<Rightarrow> regex" where "rOpt r = Rep 0 (Some 1) True r"
definition rTimes :: "nat \<Rightarrow> regex \<Rightarrow> regex" where "rTimes n r = Rep n (Some n) True r"
definition rRange :: "nat \<Rightarrow> nat \<Rightarrow> regex \<Rightarrow> regex" where "rRange m n r = Rep m (Some n) True r"
definition rAtLeast :: "nat \<Rightarrow> regex \<Rightarrow> regex" where "rAtLeast n r = Rep n None True r"

text \<open>A regular expression object: the pattern and the flag \<open>i\<close>.\<close>

record regexp =
  pattern :: regex
  ignoreCase :: bool

text \<open>The result of \<open>exec\<close>: \<open>m.index\<close>, \<open>m[0]\<close> and \<open>m[1]\<close>.\<close>

record rmatch =
  index :: nat
  m0 :: string
  m1 :: "string option"

definition startState :: "string \<Rightarrow> nat \<Rightarrow> mstate" where
  "startState text i =
     \<lparr>prev = (if i = 0 then None else Some (text ! (i - 1))), rest = drop i text, cap = None\<rparr>"

definition matchAt :: "regexp \<Rightarrow> string \<Rightarrow> nat \<Rightarrow> rmatch option" where
  "matchAt re text i =
     (case matchR (ignoreCase re) (pattern re) (startState text i) of
        [] \<Rightarrow> None
      | st' # sts \<Rightarrow>
          Some \<lparr>index = i,
                m0 = take (length text - i - length (rest st')) (drop i text),
                m1 = cap st'\<rparr>)"

text \<open>\<open>re.exec(text)\<close> with \<open>re.lastIndex = i\<close>: the first position from \<open>i\<close> on where the
  pattern matches.\<close>

function exec :: "regexp \<Rightarrow> string \<Rightarrow> nat \<Rightarrow> rmatch option" where
  "exec re text i =
     (if length text < i then None
      else case matchAt re text i of
             Some m \<Rightarrow> Some m
           | None \<Rightarrow> exec re text (Suc i))"
  by pat_completeness auto
termination
  by (relation "measure (\<lambda>(re, text, i). Suc (length text) - i)") auto

declare exec.simps [simp del]

text \<open>\<open>re.test(s)\<close> for a pattern without the flag \<open>g\<close>.\<close>

definition test :: "regexp \<Rightarrow> string \<Rightarrow> bool" where
  "test re s = (exec re s 0 \<noteq> None)"

lemma matchAt_index: "matchAt re text i = Some m \<Longrightarrow> index m = i"
  by (auto simp: matchAt_def split: list.splits)

lemma matchAt_m0_length: "matchAt re text i = Some m \<Longrightarrow> i + length (m0 m) \<le> max i (length text)"
  by (auto simp: matchAt_def split: list.splits)

lemma exec_index:
  "exec re s i = Some m \<Longrightarrow> i \<le> index m \<and> index m + length (m0 m) \<le> length s"
proof (induction re s i rule: exec.induct)
  case (1 re s i)
  show ?case
  proof (cases "matchAt re s i")
    case None
    with 1 show ?thesis
      by (subst (asm) (2) exec.simps) (auto split: if_splits)
  next
    case (Some m')
    with 1 have "length s \<ge> i" "m' = m"
      by (subst (asm) (2) exec.simps, auto split: if_splits)+
    with Some matchAt_index[of re s i m] matchAt_m0_length[of re s i m]
    show ?thesis by auto
  qed
qed

text \<open>
  The loop \<open>re.lastIndex = 0; while ((m = re.exec(text)) !== null) { ... }\<close> of a pattern
  with the flag \<open>g\<close>: the matches in the order in which the loop body sees them. After a
  match \<open>lastIndex\<close> is the end of the match. An empty match leaves \<open>lastIndex\<close> where the
  match was found, the next call finds the same match, and the loop never ends: the
  result is \<open>None\<close>.
\<close>

function execAll :: "regexp \<Rightarrow> string \<Rightarrow> nat \<Rightarrow> rmatch list option" where
  "execAll re text lastIndex =
     (case exec re text lastIndex of
        None \<Rightarrow> Some []
      | Some m \<Rightarrow>
          if m0 m = [] then None
          else map_option ((#) m) (execAll re text (index m + length (m0 m))))"
  by pat_completeness auto
termination
proof (relation "measure (\<lambda>(re, text, i). Suc (length text) - i)", goal_cases)
  case 1
  show ?case by simp
next
  case (2 re s lastIndex m)
  from exec_index[OF 2(1)] 2(2) show ?case
    by (cases "m0 m") auto
qed

declare execAll.simps [simp del]


section \<open>The patterns of the program\<close>

definition dig :: regex where "dig = Cls [Digit]"
definition ws :: regex where "ws = Cls [Space]"
definition sep :: regex where "sep = Cls [Ch CHR ''-'', Ch CHR ''.'', Space]"
definition dashSpace :: regex where "dashSpace = Cls [Ch CHR ''-'', Space]"
definition colonDash :: regex where "colonDash = Cls [Ch CHR '':'', Ch CHR ''-'']"
definition alnum :: "citem list" where "alnum = [Rng CHR ''A'' CHR ''Z'', Rng CHR ''0'' CHR ''9'']"

text \<open>\<^verbatim>\<open>/\b[A-Z0-9._%+-]+@[A-Z0-9.-]+\.[A-Z]{2,}\b/gi\<close>\<close>

definition EMAIL_RE :: regexp where
  "EMAIL_RE = \<lparr>pattern = seqs
      [WordB,
       rPlus (Cls [Rng CHR ''A'' CHR ''Z'', Rng CHR ''0'' CHR ''9'', Ch CHR ''.'', Ch CHR ''_'',
                   Ch CHR ''%'', Ch CHR ''+'', Ch CHR ''-'']),
       Cls [Ch CHR ''@''],
       rPlus (Cls [Rng CHR ''A'' CHR ''Z'', Rng CHR ''0'' CHR ''9'', Ch CHR ''.'', Ch CHR ''-'']),
       Cls [Ch CHR ''.''],
       rAtLeast 2 (Cls [Rng CHR ''A'' CHR ''Z'']),
       WordB],
     ignoreCase = True\<rparr>"

text \<open>\<^verbatim>\<open>/\b\d{3}-\d{2}-\d{4}\b/g\<close>\<close>

definition SSN_RE :: regexp where
  "SSN_RE = \<lparr>pattern = seqs
      [WordB, rTimes 3 dig, Cls [Ch CHR ''-''], rTimes 2 dig, Cls [Ch CHR ''-''], rTimes 4 dig, WordB],
     ignoreCase = False\<rparr>"

text \<open>\<^verbatim>\<open>/\b(?:social security number|ssn)\b[^0-9]{0,80}(\d{4})\b/gi\<close>\<close>

definition SSN_LAST4_CONTEXT_RE :: regexp where
  "SSN_LAST4_CONTEXT_RE = \<lparr>pattern = seqs
      [WordB, alts (lit ''social security number'') [lit ''ssn''], WordB,
       rRange 0 80 (NCls [Rng CHR ''0'' CHR ''9'']),
       Group (rTimes 4 dig),
       WordB],
     ignoreCase = True\<rparr>"

text \<open>\<^verbatim>\<open>/(?<!\d)(?:\+?\d{1,3}[-.\s]*)?(?:\(\s*\d{3}\s*\)|\d{3})[-.\s]*\d{3}[-.\s]*\d{4}(?!\d)/g\<close>\<close>

definition PHONE_RE :: regexp where
  "PHONE_RE = \<lparr>pattern = seqs
      [NotBehind [Digit],
       rOpt (seqs [rOpt (Cls [Ch CHR ''+'']), rRange 1 3 dig, rStar sep]),
       alts (seqs [Cls [Ch CHR ''(''], rStar ws, rTimes 3 dig, rStar ws, Cls [Ch CHR '')'']])
            [rTimes 3 dig],
       rStar sep, rTimes 3 dig, rStar sep, rTimes 4 dig,
       NotAhead [Digit]],
     ignoreCase = False\<rparr>"

text \<open>\<^verbatim>\<open>/(?<!\d)(?:\d[ -]*?){13,19}(?!\d)/g\<close>\<close>

definition CARD_CANDIDATE_RE :: regexp where
  "CARD_CANDIDATE_RE = \<lparr>pattern = seqs
      [NotBehind [Digit],
       rRange 13 19 (seqs [dig, rLazyStar (Cls [Ch CHR '' '', Ch CHR ''-''])]),
       NotAhead [Digit]],
     ignoreCase = False\<rparr>"

text \<open>\<^verbatim>\<open>/(?<![A-Z0-9])[A-Z]{2}\d{2}(?:[ ]?[A-Z0-9]){11,30}(?![A-Z0-9])/gi\<close>\<close>

definition IBAN_CANDIDATE_RE :: regexp where
  "IBAN_CANDIDATE_RE = \<lparr>pattern = seqs
      [NotBehind alnum,
       rTimes 2 (Cls [Rng CHR ''A'' CHR ''Z'']), rTimes 2 dig,
       rRange 11 30 (seqs [rOpt (Cls [Ch CHR '' '']), Cls alnum]),
       NotAhead alnum],
     ignoreCase = True\<rparr>"

text \<open>\<^verbatim>\<open>/\brouting(?:\s*number)?\s*[:\-]?\s*(\d{9})\b/gi\<close>\<close>

definition ROUTING_RE :: regexp where
  "ROUTING_RE = \<lparr>pattern = seqs
      [WordB, lit ''routing'', rOpt (seqs [rStar ws, lit ''number'']),
       rStar ws, rOpt colonDash, rStar ws,
       Group (rTimes 9 dig),
       WordB],
     ignoreCase = True\<rparr>"

text \<open>\<^verbatim>\<open>/\b(?:account|acct)(?:\s*(?:number|no\.?|#))?\s*[:\-]?\s*(\d{6,17})\b/gi\<close>\<close>

definition ACCOUNT_RE :: regexp where
  "ACCOUNT_RE = \<lparr>pattern = seqs
      [WordB, alts (lit ''account'') [lit ''acct''],
       rOpt (seqs [rStar ws,
                   alts (lit ''number'')
                        [seqs [lit ''no'', rOpt (Cls [Ch CHR ''.''])], lit ''#'']]),
       rStar ws, rOpt colonDash, rStar ws,
       Group (rRange 6 17 dig),
       WordB],
     ignoreCase = True\<rparr>"

text \<open>\<^verbatim>\<open>/\bsort\s*code\s*[:\-]?\s*(\d{2}[- ]?\d{2}[- ]?\d{2})\b/gi\<close>\<close>

definition SORT_CODE_RE :: regexp where
  "SORT_CODE_RE = \<lparr>pattern = seqs
      [WordB, lit ''sort'', rStar ws, lit ''code'', rStar ws, rOpt colonDash, rStar ws,
       Group (seqs [rTimes 2 dig, rOpt (Cls [Ch CHR ''-'', Ch CHR '' '']),
                    rTimes 2 dig, rOpt (Cls [Ch CHR ''-'', Ch CHR '' '']), rTimes 2 dig]),
       WordB],
     ignoreCase = True\<rparr>"

text \<open>\<^verbatim>\<open>/\bINS[-\s]*\d{6,14}\b/gi\<close>\<close>

definition INS_POLICY_RE :: regexp where
  "INS_POLICY_RE = \<lparr>pattern = seqs [WordB, lit ''INS'', rStar dashSpace, rRange 6 14 dig, WordB],
     ignoreCase = True\<rparr>"

text \<open>\<^verbatim>\<open>/\bEMP[-\s]*\d{2,4}(?:[-\s]*\d{2,6})+\b/gi\<close>\<close>

definition EMPLOYEE_ID_RE :: regexp where
  "EMPLOYEE_ID_RE = \<lparr>pattern = seqs
      [WordB, lit ''EMP'', rStar dashSpace, rRange 2 4 dig,
       rPlus (seqs [rStar dashSpace, rRange 2 6 dig]), WordB],
     ignoreCase = True\<rparr>"

text \<open>\<^verbatim>\<open>/\bMRN[-\s]*\d{4,14}\b/gi\<close>\<close>

definition MRN_RE :: regexp where
  "MRN_RE = \<lparr>pattern = seqs [WordB, lit ''MRN'', rStar dashSpace, rRange 4 14 dig, WordB],
     ignoreCase = True\<rparr>"

text \<open>The patterns written inside the functions:
  \<^verbatim>\<open>/^\d{4}$/\<close>, \<^verbatim>\<open>/^\d{9}$/\<close>, \<^verbatim>\<open>/^\d{6,17}$/\<close>,
  \<^verbatim>\<open>/^[A-Z]{2}\d{2}[A-Z0-9]{11,30}$/\<close> and
  \<^verbatim>\<open>/\b(?:credit\s*card|debit\s*card|card\s*number|visa|mastercard|amex|american\s*express)\b/\<close>.\<close>

definition LAST4_RE :: regexp where
  "LAST4_RE = \<lparr>pattern = seqs [Bol, rTimes 4 dig, Eol], ignoreCase = False\<rparr>"

definition ROUTING_DIGITS_RE :: regexp where
  "ROUTING_DIGITS_RE = \<lparr>pattern = seqs [Bol, rTimes 9 dig, Eol], ignoreCase = False\<rparr>"

definition ACCOUNT_DIGITS_RE :: regexp where
  "ACCOUNT_DIGITS_RE = \<lparr>pattern = seqs [Bol, rRange 6 17 dig, Eol], ignoreCase = False\<rparr>"

definition IBAN_SHAPE_RE :: regexp where
  "IBAN_SHAPE_RE = \<lparr>pattern = seqs
      [Bol, rTimes 2 (Cls [Rng CHR ''A'' CHR ''Z'']), rTimes 2 dig, rRange 11 30 (Cls alnum), Eol],
     ignoreCase = False\<rparr>"

definition CARD_KEYWORD_RE :: regexp where
  "CARD_KEYWORD_RE = \<lparr>pattern = seqs
      [WordB,
       alts (seqs [lit ''credit'', rStar ws, lit ''card''])
            [seqs [lit ''debit'', rStar ws, lit ''card''],
             seqs [lit ''card'', rStar ws, lit ''number''],
             lit ''visa'', lit ''mastercard'', lit ''amex'',
             seqs [lit ''american'', rStar ws, lit ''express'']],
       WordB],
     ignoreCase = False\<rparr>"

section \<open>The detection functions\<close>

datatype SensitiveType =
  Email | Phone | Ssn | Card | Bank | InsurancePolicy | EmployeeId | MedicalRecordNumber

record SensitiveMatch =
  ty :: SensitiveType
  val :: string

text \<open>A \<open>Map<string, string>\<close>: the entries in insertion order.\<close>

type_synonym jsmap = "(string \<times> string) list"

definition mapHas :: "jsmap \<Rightarrow> string \<Rightarrow> bool" where
  "mapHas u k = (map_of u k \<noteq> None)"

definition mapSet :: "jsmap \<Rightarrow> string \<Rightarrow> string \<Rightarrow> jsmap" where
  "mapSet u k v =
     (if mapHas u k then map (\<lambda>e. if fst e = k then (k, v) else e) u else u @ [(k, v)])"

definition mapValues :: "jsmap \<Rightarrow> string list" where
  "mapValues u = map snd u"

definition group1 :: "rmatch \<Rightarrow> string" where
  "group1 m = (case m1 m of None \<Rightarrow> [] | Some g \<Rightarrow> g)"

fun matchAllUniqueLoop :: "rmatch list \<Rightarrow> jsmap \<Rightarrow> jsmap" where
  "matchAllUniqueLoop [] unique = unique"
| "matchAllUniqueLoop (m # ms) unique =
     (let raw = trim (m0 m) in
      if raw = [] then matchAllUniqueLoop ms unique
      else
        let key = toLowerCase raw in
        matchAllUniqueLoop ms (if \<not> mapHas unique key then mapSet unique key raw else unique))"

definition matchAllUnique :: "string \<Rightarrow> regexp \<Rightarrow> string list option" where
  "matchAllUnique text re =
     map_option (\<lambda>ms. mapValues (matchAllUniqueLoop ms [])) (execAll re text 0)"

fun findSsnLast4Loop :: "rmatch list \<Rightarrow> jsmap \<Rightarrow> jsmap" where
  "findSsnLast4Loop [] unique = unique"
| "findSsnLast4Loop (m # ms) unique =
     (let last4 = trim (group1 m) in
      if \<not> test LAST4_RE last4 then findSsnLast4Loop ms unique
      else
        let asNum = Number last4 in
        if asNum \<ge> 1900 \<and> asNum \<le> 2099 then findSsnLast4Loop ms unique
        else findSsnLast4Loop ms
               (if \<not> mapHas unique last4 then mapSet unique last4 last4 else unique))"

definition findSsnLast4 :: "string \<Rightarrow> string list option" where
  "findSsnLast4 text =
     map_option (\<lambda>ms. mapValues (findSsnLast4Loop ms [])) (execAll SSN_LAST4_CONTEXT_RE text 0)"

text \<open>\<open>luhnCheck\<close>: the loop runs over the code units from the last to the first and
  yields the sum, or \<open>None\<close> where the source returns \<open>false\<close> from inside the loop.\<close>

fun luhnLoop :: "string \<Rightarrow> int \<Rightarrow> bool \<Rightarrow> int option" where
  "luhnLoop [] sm shouldDouble = Some sm"
| "luhnLoop (c # cs) sm shouldDouble =
     (let d = code c - 48 in
      if d < 0 \<or> d > 9 then None
      else
        let d = (if shouldDouble then (let d = d * 2 in if d > 9 then d - 9 else d) else d) in
        luhnLoop cs (sm + d) (\<not> shouldDouble))"

definition luhnCheck :: "string \<Rightarrow> bool" where
  "luhnCheck digits =
     (case luhnLoop (rev digits) 0 False of None \<Rightarrow> False | Some sm \<Rightarrow> sm mod 10 = 0)"

definition cardContext :: "string \<Rightarrow> nat \<Rightarrow> string \<Rightarrow> string" where
  "cardContext text idx raw =
     toLowerCase (slice text (nat (max 0 (int idx - 50)))
                    (min (length text) (idx + length raw + 50)))"

fun findCreditCardsLoop :: "string \<Rightarrow> rmatch list \<Rightarrow> jsmap \<Rightarrow> jsmap" where
  "findCreditCardsLoop text [] unique = unique"
| "findCreditCardsLoop text (m # ms) unique =
     (let raw = trim (m0 m); digits = digitsOnly raw in
      if length digits < 13 \<or> length digits > 19 then findCreditCardsLoop text ms unique
      else
        let luhnOk = luhnCheck digits;
            ctx = cardContext text (index m) raw;
            keywordOk = test CARD_KEYWORD_RE ctx in
        if \<not> luhnOk \<and> \<not> keywordOk then findCreditCardsLoop text ms unique
        else findCreditCardsLoop text ms
               (if \<not> mapHas unique digits then mapSet unique digits raw else unique))"

definition findCreditCards :: "string \<Rightarrow> string list option" where
  "findCreditCards text =
     map_option (\<lambda>ms. mapValues (findCreditCardsLoop text ms [])) (execAll CARD_CANDIDATE_RE text 0)"

text \<open>\<open>luhnCheck\<close> with a log of its calls: the result of the call, and the log extended by
  the argument of the call.\<close>

definition luhnCheckLogged :: "string \<Rightarrow> string list \<Rightarrow> bool \<times> string list" where
  "luhnCheckLogged digits calls = (luhnCheck digits, calls @ [digits])"

text \<open>The loop of \<open>findCreditCards\<close> with the log threaded through it: the same statements
  in the same order, the call of \<open>luhnCheck\<close> replaced by the logged call.\<close>

fun findCreditCardsLogged ::
  "string \<Rightarrow> rmatch list \<Rightarrow> jsmap \<Rightarrow> string list \<Rightarrow> jsmap \<times> string list" where
  "findCreditCardsLogged text [] unique calls = (unique, calls)"
| "findCreditCardsLogged text (m # ms) unique calls =
     (let raw = trim (m0 m); digits = digitsOnly raw in
      if length digits < 13 \<or> length digits > 19 then findCreditCardsLogged text ms unique calls
      else
        let (luhnOk, calls) = luhnCheckLogged digits calls;
            ctx = cardContext text (index m) raw;
            keywordOk = test CARD_KEYWORD_RE ctx in
        if \<not> luhnOk \<and> \<not> keywordOk then findCreditCardsLogged text ms unique calls
        else findCreditCardsLogged text ms
               (if \<not> mapHas unique digits then mapSet unique digits raw else unique) calls)"

text \<open>\<open>isValidIban\<close>: the loop returns \<open>None\<close> where the source returns \<open>false\<close> from inside it.\<close>

fun ibanLoop :: "string \<Rightarrow> int \<Rightarrow> int option" where
  "ibanLoop [] md = Some md"
| "ibanLoop (c # cs) md =
     (let ch = code c in
      if ch \<ge> 48 \<and> ch \<le> 57 then ibanLoop cs ((md * 10 + (ch - 48)) mod 97)
      else if ch \<ge> 65 \<and> ch \<le> 90 then
        (let v = ch - 55;
             md = (md * 10 + v div 10) mod 97;
             md = (md * 10 + v mod 10) mod 97
         in ibanLoop cs md)
      else None)"

definition isValidIban :: "string \<Rightarrow> bool" where
  "isValidIban iban =
     (if \<not> test IBAN_SHAPE_RE iban then False
      else
        let rearranged = drop 4 iban @ take 4 iban in
        ibanLoop rearranged 0 = Some 1)"

fun ibanScan :: "rmatch list \<Rightarrow> jsmap \<Rightarrow> jsmap" where
  "ibanScan [] unique = unique"
| "ibanScan (m # ms) unique =
     (let raw = trim (m0 m); normalized = toUpperCase (stripSpaces raw) in
      if \<not> isValidIban normalized then ibanScan ms unique
      else ibanScan ms (if \<not> mapHas unique normalized then mapSet unique normalized raw else unique))"

fun routingScan :: "rmatch list \<Rightarrow> jsmap \<Rightarrow> jsmap" where
  "routingScan [] unique = unique"
| "routingScan (m # ms) unique =
     (let raw = trim (group1 m) in
      if \<not> test ROUTING_DIGITS_RE raw then routingScan ms unique
      else
        let key = ''routing:'' @ raw in
        routingScan ms (if \<not> mapHas unique key then mapSet unique key raw else unique))"

fun accountScan :: "rmatch list \<Rightarrow> jsmap \<Rightarrow> jsmap" where
  "accountScan [] unique = unique"
| "accountScan (m # ms) unique =
     (let raw = trim (group1 m) in
      if \<not> test ACCOUNT_DIGITS_RE raw then accountScan ms unique
      else
        let key = ''account:'' @ raw in
        accountScan ms (if \<not> mapHas unique key then mapSet unique key raw else unique))"

fun sortCodeScan :: "rmatch list \<Rightarrow> jsmap \<Rightarrow> jsmap" where
  "sortCodeScan [] unique = unique"
| "sortCodeScan (m # ms) unique =
     (let raw = trim (group1 m); digits = digitsOnly raw in
      if length digits \<noteq> 6 then sortCodeScan ms unique
      else
        let key = ''sort:'' @ digits in
        sortCodeScan ms (if \<not> mapHas unique key then mapSet unique key raw else unique))"

text \<open>The map of \<open>findBankAccounts\<close> after its four loops.\<close>

definition findBankEntries :: "string \<Rightarrow> jsmap option" where
  "findBankEntries text =
     Option.bind (execAll IBAN_CANDIDATE_RE text 0) (\<lambda>ibans.
     Option.bind (execAll ROUTING_RE text 0) (\<lambda>routings.
     Option.bind (execAll ACCOUNT_RE text 0) (\<lambda>accounts.
     Option.bind (execAll SORT_CODE_RE text 0) (\<lambda>sorts.
       Some (sortCodeScan sorts (accountScan accounts (routingScan routings (ibanScan ibans []))))))))"

definition findBankAccounts :: "string \<Rightarrow> string list option" where
  "findBankAccounts text = map_option mapValues (findBankEntries text)"

fun pushAll :: "SensitiveType \<Rightarrow> string list \<Rightarrow> SensitiveMatch list \<Rightarrow> SensitiveMatch list" where
  "pushAll t [] out = out"
| "pushAll t (v # vs) out = pushAll t vs (out @ [\<lparr>ty = t, val = v\<rparr>])"

definition findSensitiveMatches :: "string \<Rightarrow> SensitiveMatch list option" where
  "findSensitiveMatches text =
     Option.bind (matchAllUnique text EMAIL_RE) (\<lambda>emails.
     Option.bind (matchAllUnique text SSN_RE) (\<lambda>ssns.
     Option.bind (findSsnLast4 text) (\<lambda>last4s.
     Option.bind (matchAllUnique text PHONE_RE) (\<lambda>phones.
     Option.bind (findCreditCards text) (\<lambda>cards.
     Option.bind (findBankAccounts text) (\<lambda>banks.
     Option.bind (matchAllUnique text INS_POLICY_RE) (\<lambda>policies.
     Option.bind (matchAllUnique text EMPLOYEE_ID_RE) (\<lambda>employeeIds.
     Option.bind (matchAllUnique text MRN_RE) (\<lambda>mrns.
       Some (pushAll MedicalRecordNumber mrns
            (pushAll EmployeeId employeeIds
            (pushAll InsurancePolicy policies
            (pushAll Bank banks
            (pushAll Card cards
            (pushAll Phone phones
            (pushAll Ssn last4s
            (pushAll Ssn ssns
            (pushAll Email emails []))))))))))))))))))"


section \<open>Definitions for the proofs\<close>

text \<open>The least number of code units that a match of a pattern consumes.\<close>

definition repMin :: "nat \<Rightarrow> nat option \<Rightarrow> nat" where
  "repMin mn mx = (case mx of None \<Rightarrow> mn | Some k \<Rightarrow> min mn k)"

primrec minLen :: "regex \<Rightarrow> nat" where
  "minLen Eps = 0"
| "minLen (Cls its) = 1"
| "minLen (NCls its) = 1"
| "minLen (Seq r1 r2) = minLen r1 + minLen r2"
| "minLen (Alt r1 r2) = min (minLen r1) (minLen r2)"
| "minLen (Rep mn mx greedy r) = repMin mn mx * minLen r"
| "minLen (Group r) = minLen r"
| "minLen WordB = 0"
| "minLen (NotAhead its) = 0"
| "minLen (NotBehind its) = 0"
| "minLen Bol = 0"
| "minLen Eol = 0"

definition consumes :: "nat \<Rightarrow> mstate \<Rightarrow> mstate \<Rightarrow> bool" where
  "consumes n st st' = (\<exists>w. rest st = w @ rest st' \<and> n \<le> length w)"

text \<open>
  The states that a match of a word of the language \<open>L\<close> at the current position leads to, and
  the language of a pattern built from classes, sequences, alternatives and quantifiers.
\<close>

definition adv :: "mstate \<Rightarrow> string \<Rightarrow> mstate" where
  "adv st w = st\<lparr>prev := (if w = [] then prev st else Some (last w)), rest := drop (length w) (rest st)\<rparr>"

definition steps :: "string set \<Rightarrow> mstate \<Rightarrow> mstate set" where
  "steps L st = {adv st w | w. w \<in> L \<and> (\<exists>t. rest st = w @ t)}"

definition cat :: "string set \<Rightarrow> string set \<Rightarrow> string set" where
  "cat A B = {u @ v | u v. u \<in> A \<and> v \<in> B}"

primrec pw :: "string set \<Rightarrow> nat \<Rightarrow> string set" where
  "pw L 0 = {[]}"
| "pw L (Suc n) = cat L (pw L n)"

definition inMax :: "nat \<Rightarrow> nat option \<Rightarrow> bool" where
  "inMax n mx = (case mx of None \<Rightarrow> True | Some k \<Rightarrow> n \<le> k)"

primrec lang :: "bool \<Rightarrow> regex \<Rightarrow> string set" where
  "lang ic Eps = {[]}"
| "lang ic (Cls its) = {[c] | c. inClass ic its c}"
| "lang ic (NCls its) = {[c] | c. \<not> inClass ic its c}"
| "lang ic (Seq r1 r2) = cat (lang ic r1) (lang ic r2)"
| "lang ic (Alt r1 r2) = lang ic r1 \<union> lang ic r2"
| "lang ic (Rep mn mx greedy r) = (\<Union>n\<in>{n. mn \<le> n \<and> inMax n mx}. pw (lang ic r) n)"
| "lang ic (Group r) = {}"
| "lang ic WordB = {}"
| "lang ic (NotAhead its) = {}"
| "lang ic (NotBehind its) = {}"
| "lang ic Bol = {}"
| "lang ic Eol = {}"

primrec simple :: "regex \<Rightarrow> bool" where
  "simple Eps = True"
| "simple (Cls its) = True"
| "simple (NCls its) = True"
| "simple (Seq r1 r2) = (simple r1 \<and> simple r2)"
| "simple (Alt r1 r2) = (simple r1 \<and> simple r2)"
| "simple (Rep mn mx greedy r) = (simple r \<and> 0 < minLen r \<and> inMax mn mx)"
| "simple (Group r) = False"
| "simple WordB = False"
| "simple (NotAhead its) = False"
| "simple (NotBehind its) = False"
| "simple Bol = False"
| "simple Eol = False"

text \<open>The shape \<^verbatim>\<open>[A-Z]{2}\d{2}[A-Z0-9]{11,30}\<close> of a whole string.\<close>

definition ibanShape :: "string \<Rightarrow> bool" where
  "ibanShape s = (15 \<le> length s \<and> length s \<le> 34 \<and> list_all isUpperAZ (take 2 s) \<and>
     list_all isDigit (take 2 (drop 2 s)) \<and> list_all (\<lambda>c. isUpperAZ c \<or> isDigit c) (drop 4 s))"

text \<open>The check of an IBAN in the words of the specification: each letter stands for
  its two decimal digits (A = 10 ... Z = 35), each digit for itself, and the digits are folded
  one by one into a remainder modulo 97.\<close>

definition ibanDigits :: "string \<Rightarrow> int list" where
  "ibanDigits s = concat (map (\<lambda>c. if isDigit c then [code c - 48]
      else [(code c - 55) div 10, (code c - 55) mod 10]) s)"

definition mod97 :: "int list \<Rightarrow> int" where
  "mod97 ds = foldl (\<lambda>m d. (m * 10 + d) mod 97) 0 ds"

definition decimalValue :: "int list \<Rightarrow> int" where
  "decimalValue ds = foldl (\<lambda>n d. n * 10 + d) 0 ds"

definition rearranged :: "string \<Rightarrow> string" where
  "rearranged s = drop 4 s @ take 4 s"

definition gbIban :: string where
  "gbIban = ''GB82WEST12345698765432''"

text \<open>
  The step of every scanning loop: \<open>if (!unique.has(key)) unique.set(key, value)\<close>.
\<close>

definition putNew :: "jsmap \<Rightarrow> string \<times> string \<Rightarrow> jsmap" where
  "putNew u kv = (if \<not> mapHas u (fst kv) then mapSet u (fst kv) (snd kv) else u)"

text \<open>The first entry of every key, in the order of the list.\<close>

fun firstByKey :: "('k \<times> 'v) list \<Rightarrow> ('k \<times> 'v) list" where
  "firstByKey [] = []"
| "firstByKey (kv # kvs) = kv # firstByKey (filter (\<lambda>e. fst e \<noteq> fst kv) kvs)"

text \<open>The key and the value that each loop derives from a match, or \<open>None\<close> where the
  loop skips the match.\<close>

definition uniqueCand :: "rmatch \<Rightarrow> (string \<times> string) option" where
  "uniqueCand m =
     (let raw = trim (m0 m) in if raw = [] then None else Some (toLowerCase raw, raw))"

definition last4Cand :: "rmatch \<Rightarrow> (string \<times> string) option" where
  "last4Cand m =
     (let last4 = trim (group1 m) in
      if \<not> test LAST4_RE last4 then None
      else if Number last4 \<ge> 1900 \<and> Number last4 \<le> 2099 then None
      else Some (last4, last4))"

definition cardCand :: "string \<Rightarrow> rmatch \<Rightarrow> (string \<times> string) option" where
  "cardCand text m =
     (let raw = trim (m0 m); digits = digitsOnly raw in
      if length digits < 13 \<or> length digits > 19 then None
      else if \<not> luhnCheck digits \<and> \<not> test CARD_KEYWORD_RE (cardContext text (index m) raw) then None
      else Some (digits, raw))"

definition ibanCand :: "rmatch \<Rightarrow> (string \<times> string) option" where
  "ibanCand m =
     (let raw = trim (m0 m); normalized = toUpperCase (stripSpaces raw) in
      if \<not> isValidIban normalized then None else Some (normalized, raw))"

definition routingCand :: "rmatch \<Rightarrow> (string \<times> string) option" where
  "routingCand m =
     (let raw = trim (group1 m) in
      if \<not> test ROUTING_DIGITS_RE raw then None else Some (''routing:'' @ raw, raw))"

definition accountCand :: "rmatch \<Rightarrow> (string \<times> string) option" where
  "accountCand m =
     (let raw = trim (group1 m) in
      if \<not> test ACCOUNT_DIGITS_RE raw then None else Some (''account:'' @ raw, raw))"

definition sortCand :: "rmatch \<Rightarrow> (string \<times> string) option" where
  "sortCand m =
     (let raw = trim (group1 m); digits = digitsOnly raw in
      if length digits \<noteq> 6 then None else Some (''sort:'' @ digits, raw))"

text \<open>The matches of a pattern in a text, in the order of the scan.\<close>

definition scan :: "regexp \<Rightarrow> string \<Rightarrow> rmatch list" where
  "scan re text = (case execAll re text 0 of None \<Rightarrow> [] | Some ms \<Rightarrow> ms)"

text \<open>The entries of a family: for every key the first candidate with that key, in the
  order of the scan.\<close>

definition entries :: "(rmatch \<Rightarrow> (string \<times> string) option) \<Rightarrow> regexp \<Rightarrow> string \<Rightarrow> jsmap" where
  "entries cand re text = firstByKey (List.map_filter cand (scan re text))"

definition tagged :: "SensitiveType \<Rightarrow> string list \<Rightarrow> SensitiveMatch list" where
  "tagged t vs = map (\<lambda>v. \<lparr>ty = t, val = v\<rparr>) vs"

text \<open>A value that is not empty and has no white space at either end.\<close>

definition clean :: "string \<Rightarrow> bool" where
  "clean v = (v \<noteq> [] \<and> trim v = v \<and> \<not> isSpace (hd v) \<and> \<not> isSpace (last v))"

text \<open>The families in the order in which the specification lists them: email, phone, ssn
  (direct, then last four), card, bank, insurance policy, employee id, medical record number.\<close>

definition familiesInSpecOrder :: "string \<Rightarrow> SensitiveMatch list" where
  "familiesInSpecOrder text =
     tagged Email (map snd (entries uniqueCand EMAIL_RE text)) @
     tagged Phone (map snd (entries uniqueCand PHONE_RE text)) @
     tagged Ssn (map snd (entries uniqueCand SSN_RE text)) @
     tagged Ssn (map snd (entries last4Cand SSN_LAST4_CONTEXT_RE text)) @
     tagged Card (map snd (entries (cardCand text) CARD_CANDIDATE_RE text)) @
     tagged Bank (map snd (entries ibanCand IBAN_CANDIDATE_RE text) @
                  map snd (entries routingCand ROUTING_RE text) @
                  map snd (entries accountCand ACCOUNT_RE text) @
                  map snd (entries sortCand SORT_CODE_RE text)) @
     tagged InsurancePolicy (map snd (entries uniqueCand INS_POLICY_RE text)) @
     tagged EmployeeId (map snd (entries uniqueCand EMPLOYEE_ID_RE text)) @
     tagged MedicalRecordNumber (map snd (entries uniqueCand MRN_RE text))"

text \<open>The words of a fixed length over the code units that satisfy \<open>P\<close>.\<close>

definition words :: "nat \<Rightarrow> (char \<Rightarrow> bool) \<Rightarrow> string set" where
  "words n P = {w. length w = n \<and> list_all P w}"

text \<open>The entries of the families with the type of the family: type, key and value.\<close>

definition keyed :: "SensitiveType \<Rightarrow> jsmap \<Rightarrow> (SensitiveType \<times> string \<times> string) list" where
  "keyed t es = map (\<lambda>e. (t, fst e, snd e)) es"

definition keyedMatches :: "string \<Rightarrow> (SensitiveType \<times> string \<times> string) list" where
  "keyedMatches text =
     keyed Email (entries uniqueCand EMAIL_RE text) @
     keyed Ssn (entries uniqueCand SSN_RE text) @
     keyed Ssn (entries last4Cand SSN_LAST4_CONTEXT_RE text) @
     keyed Phone (entries uniqueCand PHONE_RE text) @
     keyed Card (entries (cardCand text) CARD_CANDIDATE_RE text) @
     keyed Bank (entries ibanCand IBAN_CANDIDATE_RE text) @
     keyed Bank (entries routingCand ROUTING_RE text) @
     keyed Bank (entries accountCand ACCOUNT_RE text) @
     keyed Bank (entries sortCand SORT_CODE_RE text) @
     keyed InsurancePolicy (entries uniqueCand INS_POLICY_RE text) @
     keyed EmployeeId (entries uniqueCand EMPLOYEE_ID_RE text) @
     keyed MedicalRecordNumber (entries uniqueCand MRN_RE text)"

text \<open>The normalized key of a value, by type, in the words of the specification.\<close>

definition normalizedKey :: "SensitiveType \<Rightarrow> string \<Rightarrow> string \<Rightarrow> bool" where
  "normalizedKey t k v =
     (case t of
        Card \<Rightarrow> k = digitsOnly v
      | Bank \<Rightarrow> k = ''routing:'' @ v \<or> k = ''account:'' @ v \<or> k = ''sort:'' @ digitsOnly v \<or>
                k = toUpperCase (stripSpaces v)
      | _ \<Rightarrow> k = toLowerCase (trim v))"

text \<open>The code units of a social security number.\<close>

definition ssnChar :: "char \<Rightarrow> bool" where
  "ssnChar c = (isDigit c \<or> c = CHR ''-'')"

text \<open>The pattern inside the capture group of a pattern that ends with the group and a
  word boundary.\<close>

definition finalGroup :: "regex \<Rightarrow> regex \<Rightarrow> regex option" where
  "finalGroup r X =
     (case r of Group g \<Rightarrow> if X = Seq WordB Eps then Some g else None | _ \<Rightarrow> None)"

fun captureOf :: "regex \<Rightarrow> regex option" where
  "captureOf (Seq r X) = (case finalGroup r X of Some g \<Rightarrow> Some g | None \<Rightarrow> captureOf X)"
| "captureOf r = None"

text \<open>The text of a sort code: three groups of two decimal digits, with at most one dash
  or space between two groups.\<close>

definition twoDigits :: "string \<Rightarrow> bool" where
  "twoDigits w = (length w = 2 \<and> list_all isDigit w)"

definition optSep :: "string \<Rightarrow> bool" where
  "optSep w = (w = [] \<or> w = ''-'' \<or> w = '' '')"

definition sortCodeText :: "string \<Rightarrow> bool" where
  "sortCodeText v =
     (\<exists>a s1 b s2 c. v = a @ s1 @ b @ s2 @ c \<and> twoDigits a \<and> optSep s1 \<and> twoDigits b \<and>
        optSep s2 \<and> twoDigits c)"

text \<open>
  The Luhn checksum in the words of the specification: counted from the right, every second
  digit is doubled, 9 is subtracted where the doubled digit exceeds 9, and the sum is
  divisible by 10.
\<close>

definition luhnDigit :: "nat \<Rightarrow> int \<Rightarrow> int" where
  "luhnDigit i d = (if odd i then (if d * 2 > 9 then d * 2 - 9 else d * 2) else d)"

definition luhnSpec :: "string \<Rightarrow> bool" where
  "luhnSpec s = ((\<Sum>i<length s. luhnDigit i (code (rev s ! i) - 48)) mod 10 = 0)"

text \<open>
  The keywords of the card context as the pattern has them: a keyword of two words allows
  any run of white space, also none, between the words, and a keyword counts only as a whole
  word, with no word character before or after it.
\<close>

definition spaced :: "string \<Rightarrow> string \<Rightarrow> string set" where
  "spaced a b = {a @ sp @ b | sp. list_all isSpace sp}"

definition keywordForms :: "string set" where
  "keywordForms = spaced ''credit'' ''card'' \<union> spaced ''debit'' ''card'' \<union>
     spaced ''card'' ''number'' \<union> {''visa'', ''mastercard'', ''amex''} \<union>
     spaced ''american'' ''express''"

definition wholeWordIn :: "string set \<Rightarrow> string \<Rightarrow> bool" where
  "wholeWordIn L s =
     (\<exists>pre w post. s = pre @ w @ post \<and> w \<in> L \<and>
        (pre = [] \<or> \<not> isWordChar (last pre)) \<and> (post = [] \<or> \<not> isWordChar (hd post)))"

text \<open>The keywords in the words of the specification: one of the seven strings occurs
  somewhere in the window.\<close>

definition occursIn :: "string \<Rightarrow> string \<Rightarrow> bool" where
  "occursIn k s = list_ex (\<lambda>i. take (length k) (drop i s) = k) [0..<Suc (length s)]"

definition cardKeywords :: "string list" where
  "cardKeywords = [''credit card'', ''debit card'', ''card number'', ''visa'', ''mastercard'',
     ''amex'', ''american express'']"

definition containsKeyword :: "string \<Rightarrow> bool" where
  "containsKeyword ctx = list_ex (\<lambda>k. occursIn k ctx) cardKeywords"

definition cardSep :: "char \<Rightarrow> bool" where
  "cardSep c = (c = CHR '' '' \<or> c = CHR ''-'')"

definition cardKeywordAlts :: regex where
  "cardKeywordAlts =
     Alt (Seq (lit ''credit'') (Seq (rStar ws) (Seq (lit ''card'') Eps)))
    (Alt (Seq (lit ''debit'') (Seq (rStar ws) (Seq (lit ''card'') Eps)))
    (Alt (Seq (lit ''card'') (Seq (rStar ws) (Seq (lit ''number'') Eps)))
    (Alt (lit ''visa'') (Alt (lit ''mastercard'') (Alt (lit ''amex'')
         (Seq (lit ''american'') (Seq (rStar ws) (Seq (lit ''express'') Eps))))))))"

section \<open>Code units\<close>

lemma code_range: "0 \<le> code c \<and> code c < 256"
proof -
  have "of_nat (of_char c :: nat) = (of_char c :: int)"
    by (simp add: of_nat_of_char)
  moreover have "(of_char c :: nat) < 256"
    by simp
  ultimately show ?thesis
    unfolding code_def by linarith
qed

lemma char_of_code: "char_of (code c) = c"
  by (simp add: code_def)

lemma isDigit_iff: "isDigit c \<longleftrightarrow> \<not> (code c - 48 < 0 \<or> code c - 48 > 9)"
  by (auto simp: isDigit_def)

section \<open>The Luhn loop\<close>

lemma luhnLoop_nondigit:
  "\<exists>c\<in>set cs. \<not> isDigit c \<Longrightarrow> luhnLoop cs sm sd = None"
proof (induction cs arbitrary: sm sd)
  case Nil
  then show ?case by simp
next
  case (Cons c cs)
  show ?case
  proof (cases "isDigit c")
    case True
    with Cons.prems have "\<exists>c\<in>set cs. \<not> isDigit c" by auto
    from Cons.IH[OF this] True[unfolded isDigit_iff] show ?thesis
      by (simp add: Let_def)
  next
    case False
    then show ?thesis by (simp add: isDigit_iff Let_def)
  qed
qed

lemma luhnLoop_digits:
  "list_all isDigit cs \<Longrightarrow> \<exists>v. luhnLoop cs sm sd = Some v"
proof (induction cs arbitrary: sm sd)
  case Nil
  then show ?case by simp
next
  case (Cons c cs)
  then have "isDigit c" and cs: "list_all isDigit cs"
    by simp_all
  then have c: "\<not> (code c - 48 < 0 \<or> code c - 48 > 9)"
    using isDigit_iff by blast
  show ?case
    using c Cons.IH[OF cs] by (simp add: Let_def)
qed

section \<open>Every match is a prefix of the remaining text\<close>

lemma repMin_step: "mx \<noteq> Some 0 \<Longrightarrow> 0 < mn \<Longrightarrow> repMin mn mx = Suc (repMin (mn - 1) (decMax mx))"
  by (cases mx) (auto simp: repMin_def decMax_def)

lemma repMin_0 [simp]: "repMin 0 mx = 0" "repMin mn (Some 0) = 0"
  by (cases mx) (auto simp: repMin_def)

lemma consumes_refl: "consumes 0 st st"
  by (simp add: consumes_def)

lemma consumes_trans:
  "consumes a st st' \<Longrightarrow> consumes b st' st'' \<Longrightarrow> consumes (a + b) st st''"
  unfolding consumes_def by (metis add_mono append.assoc length_append)

lemma consumes_weaken: "consumes a st st' \<Longrightarrow> b \<le> a \<Longrightarrow> consumes b st st'"
  unfolding consumes_def by (meson le_trans)

lemma consumes_step: "c # cs = rest st \<Longrightarrow> consumes (Suc 0) st (st\<lparr>prev := p, rest := cs\<rparr>)"
  unfolding consumes_def by (rule exI[of _ "[c]"]) simp

lemma rep_consumes:
  "(\<forall>st st'. st' \<in> set (f st) \<longrightarrow> consumes n st st') \<Longrightarrow>
   st' \<in> set (rep f greedy mn mx st) \<Longrightarrow> consumes (repMin mn mx * n) st st'"
proof (induction f greedy mn mx st arbitrary: st' rule: rep.induct)
  case (1 f greedy mn mx st)
  note fP = "1.prems"(1)
  note mem = "1.prems"(2)
  show ?case
  proof (cases "mx = Some 0")
    case True
    with mem have "st' = st" by (simp add: rep.simps)
    with True show ?thesis by (simp add: consumes_refl)
  next
    case False
    show ?thesis
    proof (cases "0 < mn")
      case True
      with False mem obtain x where x: "x \<in> set (f st)"
        and st': "st' \<in> set (rep f greedy (mn - 1) (decMax mx) x)"
        by (subst (asm) rep.simps) auto
      from "1.IH"(1)[OF False True x fP st']
      have "consumes (repMin (mn - 1) (decMax mx) * n) x st'" .
      moreover from fP x have "consumes n st x" by blast
      ultimately have "consumes (n + repMin (mn - 1) (decMax mx) * n) st st'"
        by (rule consumes_trans[rotated])
      then show ?thesis by (simp add: repMin_step[OF False True])
    next
      case mn0: False
      then have z: "repMin mn mx * n = 0" by simp
      show ?thesis
      proof (cases "st' = st")
        case True
        then show ?thesis by (simp add: z consumes_refl)
      next
        case ne: False
        with False mn0 mem obtain x where x: "x \<in> set (f st)"
          and lt: "length (rest x) < length (rest st)"
          and st': "st' \<in> set (rep f greedy 0 (decMax mx) x)"
          by (subst (asm) rep.simps) (auto split: if_splits)
        have "consumes (repMin 0 (decMax mx) * n) x st'"
        proof (cases greedy)
          case True
          from "1.IH"(2)[OF False mn0 True _ fP st'] x lt show ?thesis by simp
        next
          case g: False
          from "1.IH"(3)[OF False mn0 g _ fP st'] x lt show ?thesis by simp
        qed
        moreover from fP x have "consumes n st x" by blast
        ultimately have "consumes (n + repMin 0 (decMax mx) * n) st st'"
          by (rule consumes_trans[rotated])
        then show ?thesis unfolding z by (rule consumes_weaken) simp
      qed
    qed
  qed
qed

lemma matchR_consumes:
  "st' \<in> set (matchR ic r st) \<Longrightarrow> consumes (minLen r) st st'"
proof (induction r arbitrary: st st')
  case Eps
  then show ?case by (simp add: consumes_refl)
next
  case (Cls its)
  then show ?case by (auto intro: consumes_step split: list.splits if_splits)
next
  case (NCls its)
  then show ?case by (auto intro: consumes_step split: list.splits if_splits)
next
  case (Seq r1 r2)
  from Seq.prems obtain x where x: "x \<in> set (matchR ic r1 st)" and s: "st' \<in> set (matchR ic r2 x)"
    by auto
  from consumes_trans[OF Seq.IH(1)[OF x] Seq.IH(2)[OF s]] show ?case by simp
next
  case (Alt r1 r2)
  from Alt.prems have "st' \<in> set (matchR ic r1 st) \<or> st' \<in> set (matchR ic r2 st)" by simp
  then show ?case
  proof
    assume "st' \<in> set (matchR ic r1 st)"
    from consumes_weaken[OF Alt.IH(1)[OF this]] show ?thesis by simp
  next
    assume "st' \<in> set (matchR ic r2 st)"
    from consumes_weaken[OF Alt.IH(2)[OF this]] show ?thesis by simp
  qed
next
  case (Rep mn mx greedy r)
  from Rep.prems have "st' \<in> set (rep (matchR ic r) greedy mn mx st)" by simp
  moreover from Rep.IH have "\<forall>st st'. st' \<in> set (matchR ic r st) \<longrightarrow> consumes (minLen r) st st'"
    by blast
  ultimately show ?case using rep_consumes by simp
next
  case (Group r)
  then show ?case by (auto simp: consumes_def)
next
  case WordB
  then show ?case by (auto simp: consumes_refl split: if_splits)
next
  case (NotAhead its)
  then show ?case by (auto simp: consumes_refl split: list.splits if_splits)
next
  case (NotBehind its)
  then show ?case by (auto simp: consumes_refl split: option.splits if_splits)
next
  case Bol
  then show ?case by (auto simp: consumes_refl split: if_splits)
next
  case Eol
  then show ?case by (auto simp: consumes_refl split: if_splits)
qed

lemma rest_startState: "rest (startState s i) = drop i s"
  by (simp add: startState_def)

lemma matchAt_consumes:
  assumes "matchAt re s i = Some m"
  shows "\<exists>st'. st' \<in> set (matchR (ignoreCase re) (pattern re) (startState s i)) \<and>
           drop i s = m0 m @ rest st' \<and> m1 m = cap st' \<and> index m = i \<and>
           minLen (pattern re) \<le> length (m0 m)"
proof -
  from assms obtain st' sts where
    l: "matchR (ignoreCase re) (pattern re) (startState s i) = st' # sts"
    and m: "m = \<lparr>index = i, m0 = take (length s - i - length (rest st')) (drop i s), m1 = cap st'\<rparr>"
    by (auto simp: matchAt_def split: list.splits)
  from l have mem: "st' \<in> set (matchR (ignoreCase re) (pattern re) (startState s i))" by simp
  from matchR_consumes[OF mem] obtain w where
    w: "drop i s = w @ rest st'" and len: "minLen (pattern re) \<le> length w"
    by (auto simp: consumes_def rest_startState)
  from w have "length s - i = length w + length (rest st')"
    by (metis length_append length_drop)
  with w have "take (length s - i - length (rest st')) (drop i s) = w" by simp
  with m w len mem show ?thesis by auto
qed

lemma exec_matchAt:
  "exec re s i = Some m \<Longrightarrow> \<exists>j. i \<le> j \<and> j \<le> length s \<and> matchAt re s j = Some m"
proof (induction re s i rule: exec.induct)
  case (1 re s i)
  show ?case
  proof (cases "matchAt re s i")
    case None
    with "1.prems" have le: "\<not> length s < i" and "exec re s (Suc i) = Some m"
      by (subst (asm) exec.simps, simp split: if_splits)+
    with "1.IH"[OF le None] show ?thesis by (meson Suc_leD)
  next
    case (Some m')
    with "1.prems" have "\<not> length s < i" "m' = m"
      by (subst (asm) exec.simps, simp split: if_splits)+
    with Some show ?thesis by auto
  qed
qed

lemma execAll_total:
  "0 < minLen (pattern re) \<Longrightarrow> \<exists>ms. execAll re s i = Some ms"
proof (induction re s i rule: execAll.induct)
  case (1 re s i)
  show ?case
  proof (cases "exec re s i")
    case None
    then show ?thesis by (subst execAll.simps) simp
  next
    case (Some m)
    from exec_matchAt[OF Some] obtain j where "matchAt re s j = Some m" by blast
    from matchAt_consumes[OF this] "1.prems" have ne: "m0 m \<noteq> []" by auto
    from "1.IH"[OF Some ne "1.prems"] obtain ms where
      "execAll re s (index m + length (m0 m)) = Some ms" by blast
    with Some ne show ?thesis by (subst execAll.simps) simp
  qed
qed

lemma execAll_matchAt:
  "execAll re s i = Some ms \<Longrightarrow> m \<in> set ms \<Longrightarrow> \<exists>j. j \<le> length s \<and> matchAt re s j = Some m"
proof (induction re s i arbitrary: ms rule: execAll.induct)
  case (1 re s i)
  show ?case
  proof (cases "exec re s i")
    case None
    with "1.prems" show ?thesis by (subst (asm) execAll.simps) simp
  next
    case (Some m')
    with "1.prems"(1) have ne: "m0 m' \<noteq> []"
      by (subst (asm) execAll.simps) (auto split: if_splits)
    with Some "1.prems"(1) obtain ms' where
      ms': "execAll re s (index m' + length (m0 m')) = Some ms'" and ms: "ms = m' # ms'"
      by (subst (asm) execAll.simps) auto
    show ?thesis
    proof (cases "m = m'")
      case True
      with exec_matchAt[OF Some] show ?thesis by blast
    next
      case False
      with "1.prems"(2) ms have "m \<in> set ms'" by simp
      from "1.IH"[OF Some ne ms' this] show ?thesis .
    qed
  qed
qed

section \<open>The matcher and the language of a pattern\<close>

lemma adv_Nil [simp]: "adv st [] = st"
  by (simp add: adv_def)

lemma rest_adv: "rest st = w @ t \<Longrightarrow> rest (adv st w) = t"
  by (simp add: adv_def)

lemma cap_adv [simp]: "cap (adv st w) = cap st"
  by (simp add: adv_def)

lemma adv_adv: "adv (adv st u) v = adv st (u @ v)"
  by (simp add: adv_def add.commute)

lemma steps_eps [simp]: "steps {[]} st = {st}"
  by (auto simp: steps_def)

lemma steps_Un: "steps (A \<union> B) st = steps A st \<union> steps B st"
  by (auto simp: steps_def)

lemma steps_UN: "steps (\<Union>i\<in>I. A i) st = (\<Union>i\<in>I. steps (A i) st)"
  by (auto simp: steps_def)

lemma steps_cat: "steps (cat A B) st = (\<Union>x\<in>steps A st. steps B x)"
proof (intro set_eqI iffI)
  fix y assume "y \<in> steps (cat A B) st"
  then obtain u v t where u: "u \<in> A" and v: "v \<in> B" and r: "rest st = (u @ v) @ t"
    and y: "y = adv st (u @ v)"
    by (auto simp: steps_def cat_def)
  from u r have "adv st u \<in> steps A st" by (auto simp: steps_def)
  moreover from r have "rest (adv st u) = v @ t" by (simp add: rest_adv)
  with v have "adv (adv st u) v \<in> steps B (adv st u)" by (auto simp: steps_def)
  ultimately show "y \<in> (\<Union>x\<in>steps A st. steps B x)" using y by (auto simp: adv_adv)
next
  fix y assume "y \<in> (\<Union>x\<in>steps A st. steps B x)"
  then obtain u t v t' where u: "u \<in> A" and r: "rest st = u @ t"
    and v: "v \<in> B" and r': "rest (adv st u) = v @ t'" and y: "y = adv (adv st u) v"
    by (auto simp: steps_def)
  from r r' have r'': "rest st = (u @ v) @ t'" by (simp add: rest_adv)
  from u v have "u @ v \<in> cat A B" by (auto simp: cat_def)
  with r'' have "adv st (u @ v) \<in> steps (cat A B) st" unfolding steps_def by blast
  with y show "y \<in> steps (cat A B) st"
    by (simp add: adv_adv)
qed

lemma steps_shorter:
  "x \<in> steps L st \<Longrightarrow> [] \<notin> L \<Longrightarrow> length (rest x) < length (rest st)"
  by (auto simp: steps_def adv_def)

lemma inMax_decMax: "mx \<noteq> Some 0 \<Longrightarrow> inMax (Suc n) mx = inMax n (decMax mx)"
  by (cases mx) (auto simp: inMax_def decMax_def)

lemma rep_steps:
  "(\<forall>st. set (f st) = steps L st) \<Longrightarrow> [] \<notin> L \<Longrightarrow> inMax mn mx \<Longrightarrow>
   set (rep f greedy mn mx st) = (\<Union>n\<in>{n. mn \<le> n \<and> inMax n mx}. steps (pw L n) st)"
proof (induction f greedy mn mx st rule: rep.induct)
  case (1 f greedy mn mx st)
  note fL = "1.prems"(1) and ne = "1.prems"(2) and wf = "1.prems"(3)
  show ?case
  proof (cases "mx = Some 0")
    case True
    with wf have "{n. mn \<le> n \<and> inMax n mx} = {0}" by (auto simp: inMax_def)
    with True show ?thesis by (simp add: rep.simps)
  next
    case False
    show ?thesis
    proof (cases "0 < mn")
      case True
      from wf False True have wf': "inMax (mn - 1) (decMax mx)"
        by (cases mx) (auto simp: inMax_def decMax_def)
      have "set (rep f greedy mn mx st) = (\<Union>x\<in>steps L st. set (rep f greedy (mn - 1) (decMax mx) x))"
        using False True fL by (subst rep.simps) simp
      also have "\<dots> = (\<Union>x\<in>steps L st. \<Union>n\<in>{n. mn - 1 \<le> n \<and> inMax n (decMax mx)}. steps (pw L n) x)"
        using "1.IH"(1)[OF False True _ fL ne wf'] fL by simp
      also have "\<dots> = (\<Union>n\<in>{n. mn - 1 \<le> n \<and> inMax n (decMax mx)}. steps (pw L (Suc n)) st)"
        by (auto simp: steps_cat)
      also have "\<dots> = (\<Union>n\<in>{n. mn \<le> n \<and> inMax n mx}. steps (pw L n) st)"
      proof (intro set_eqI iffI)
        fix y assume "y \<in> (\<Union>n\<in>{n. mn - 1 \<le> n \<and> inMax n (decMax mx)}. steps (pw L (Suc n)) st)"
        then obtain n where "mn - 1 \<le> n" "inMax n (decMax mx)" "y \<in> steps (pw L (Suc n)) st" by auto
        with True False have "mn \<le> Suc n" "inMax (Suc n) mx" by (auto simp: inMax_decMax)
        with \<open>y \<in> steps (pw L (Suc n)) st\<close> show "y \<in> (\<Union>n\<in>{n. mn \<le> n \<and> inMax n mx}. steps (pw L n) st)"
          by blast
      next
        fix y assume "y \<in> (\<Union>n\<in>{n. mn \<le> n \<and> inMax n mx}. steps (pw L n) st)"
        then obtain n where n: "mn \<le> n" "inMax n mx" "y \<in> steps (pw L n) st" by auto
        with True obtain n' where n': "n = Suc n'" by (cases n) auto
        with n False have "mn - 1 \<le> n'" "inMax n' (decMax mx)" by (auto simp: inMax_decMax)
        with n n' show "y \<in> (\<Union>n\<in>{n. mn - 1 \<le> n \<and> inMax n (decMax mx)}. steps (pw L (Suc n)) st)"
          by blast
      qed
      finally show ?thesis .
    next
      case mn0: False
      have wf': "inMax 0 (decMax mx)"
        by (cases mx) (auto simp: inMax_def decMax_def)
      have filt: "filter (\<lambda>st'. length (rest st') < length (rest st)) (f st) = f st"
        using fL ne by (auto simp: filter_id_conv intro: steps_shorter)
      have "set (rep f greedy mn mx st) = insert st (\<Union>x\<in>steps L st. set (rep f greedy 0 (decMax mx) x))"
        using False mn0 fL by (subst rep.simps) (simp add: filt)
      also have "\<dots> = insert st (\<Union>x\<in>steps L st. \<Union>n\<in>{n. inMax n (decMax mx)}. steps (pw L n) x)"
      proof (cases greedy)
        case True
        from "1.IH"(2)[OF False mn0 True _ fL ne wf'] fL show ?thesis by (simp add: filt)
      next
        case g: False
        from "1.IH"(3)[OF False mn0 g _ fL ne wf'] fL show ?thesis by (simp add: filt)
      qed
      also have "\<dots> = insert st (\<Union>n\<in>{n. inMax n (decMax mx)}. steps (pw L (Suc n)) st)"
        by (auto simp: steps_cat)
      also have "\<dots> = (\<Union>n\<in>{n. mn \<le> n \<and> inMax n mx}. steps (pw L n) st)"
      proof (intro set_eqI iffI)
        fix y assume "y \<in> insert st (\<Union>n\<in>{n. inMax n (decMax mx)}. steps (pw L (Suc n)) st)"
        then consider "y = st" | n where "inMax n (decMax mx)" "y \<in> steps (pw L (Suc n)) st" by auto
        then show "y \<in> (\<Union>n\<in>{n. mn \<le> n \<and> inMax n mx}. steps (pw L n) st)"
        proof cases
          case 1
          have "inMax 0 mx" by (cases mx) (auto simp: inMax_def)
          moreover have "st \<in> steps (pw L 0) st" by simp
          ultimately show ?thesis using 1 mn0 by blast
        next
          case 2
          with False have "inMax (Suc n) mx" by (simp add: inMax_decMax)
          with 2 mn0 show ?thesis by blast
        qed
      next
        fix y assume "y \<in> (\<Union>n\<in>{n. mn \<le> n \<and> inMax n mx}. steps (pw L n) st)"
        then obtain n where n: "inMax n mx" "y \<in> steps (pw L n) st" by auto
        show "y \<in> insert st (\<Union>n\<in>{n. inMax n (decMax mx)}. steps (pw L (Suc n)) st)"
        proof (cases n)
          case 0
          with n show ?thesis by simp
        next
          case (Suc n')
          with n False have "inMax n' (decMax mx)" by (simp add: inMax_decMax)
          with n Suc show ?thesis by blast
        qed
      qed
      finally show ?thesis .
    qed
  qed
qed


lemma steps_single:
  "steps {[c] | c. P c} st =
     (case rest st of [] \<Rightarrow> {} | c # cs \<Rightarrow> if P c then {st\<lparr>prev := Some c, rest := cs\<rparr>} else {})"
proof (cases "rest st")
  case Nil
  then show ?thesis by (auto simp: steps_def)
next
  case (Cons c cs)
  have "steps {[c] | c. P c} st = (if P c then {adv st [c]} else {})"
  proof (intro set_eqI iffI)
    fix y assume "y \<in> steps {[c] | c. P c} st"
    then obtain c' t where "P c'" "rest st = [c'] @ t" "y = adv st [c']"
      unfolding steps_def by blast
    with Cons show "y \<in> (if P c then {adv st [c]} else {})" by simp
  next
    fix y assume "y \<in> (if P c then {adv st [c]} else {})"
    then have "P c" "y = adv st [c]" by (simp_all split: if_splits)
    moreover from Cons have "rest st = [c] @ cs" by simp
    ultimately show "y \<in> steps {[c] | c. P c} st" unfolding steps_def by blast
  qed
  moreover from Cons have "adv st [c] = st\<lparr>prev := Some c, rest := cs\<rparr>"
    by (simp add: adv_def)
  ultimately show ?thesis using Cons by simp
qed

lemma matchR_lang:
  "simple r \<Longrightarrow> set (matchR ic r st) = steps (lang ic r) st"
proof (induction r arbitrary: st)
  case Eps
  show ?case by simp
next
  case (Cls its)
  show ?case by (simp add: steps_single split: list.splits)
next
  case (NCls its)
  show ?case
    using steps_single[of "\<lambda>c. \<not> inClass ic its c" st]
    by (cases "rest st") simp_all
next
  case (Seq r1 r2)
  then show ?case by (simp add: steps_cat)
next
  case (Alt r1 r2)
  then show ?case by (simp add: steps_Un)
next
  case (Rep mn mx greedy r)
  then have s: "simple r" and pos: "0 < minLen r" and wf: "inMax mn mx" by simp_all
  have fL: "\<forall>st. set (matchR ic r st) = steps (lang ic r) st"
    using Rep.IH[OF s] by blast
  have ne: "[] \<notin> lang ic r"
  proof
    assume "[] \<in> lang ic r"
    then have "\<lparr>prev = None, rest = [], cap = None\<rparr> \<in> steps (lang ic r) \<lparr>prev = None, rest = [], cap = None\<rparr>"
      by (auto simp: steps_def intro!: exI[of _ "[]"])
    with fL have "\<lparr>prev = None, rest = [], cap = None\<rparr> \<in> set (matchR ic r \<lparr>prev = None, rest = [], cap = None\<rparr>)"
      by simp
    from matchR_consumes[OF this] pos show False by (simp add: consumes_def)
  qed
  show ?case using rep_steps[OF fL ne wf] by (simp add: steps_UN)
qed simp_all

section \<open>Tests of a whole string\<close>

lemma exec_eq_None:
  "exec re s i = None \<longleftrightarrow> (\<forall>j. i \<le> j \<and> j \<le> length s \<longrightarrow> matchAt re s j = None)"
proof (induction re s i rule: exec.induct)
  case (1 re s i)
  show ?case
  proof (cases "length s < i")
    case True
    then show ?thesis by (subst exec.simps) auto
  next
    case le: False
    show ?thesis
    proof (cases "matchAt re s i")
      case None
      have "exec re s i = exec re s (Suc i)"
        using le None by (subst exec.simps) simp
      also have "\<dots> = None \<longleftrightarrow> (\<forall>j. Suc i \<le> j \<and> j \<le> length s \<longrightarrow> matchAt re s j = None)"
        using "1.IH"[OF le None] .
      also have "\<dots> \<longleftrightarrow> (\<forall>j. i \<le> j \<and> j \<le> length s \<longrightarrow> matchAt re s j = None)"
        using None by (metis Suc_leI le_neq_implies_less Suc_leD)
      finally show ?thesis .
    next
      case (Some m)
      then have "exec re s i = Some m" using le by (subst exec.simps) simp
      with Some le show ?thesis by auto
    qed
  qed
qed

lemma matchAt_eq_None:
  "matchAt re s j = None \<longleftrightarrow> set (matchR (ignoreCase re) (pattern re) (startState s j)) = {}"
  by (simp add: matchAt_def split: list.splits)

lemma test_iff:
  "test re s \<longleftrightarrow> (\<exists>j\<le>length s. set (matchR (ignoreCase re) (pattern re) (startState s j)) \<noteq> {})"
  unfolding test_def exec_eq_None matchAt_eq_None by auto

lemma prev_startState: "prev (startState s j) = None \<longleftrightarrow> j = 0"
  by (simp add: startState_def)

lemma startState_0: "startState s 0 = \<lparr>prev = None, rest = s, cap = None\<rparr>"
  by (simp add: startState_def)

lemma cat_eps [simp]: "cat A {[]} = A" "cat {[]} A = A"
  by (auto simp: cat_def)

text \<open>A pattern \<open>^r$\<close> tests whether the whole string is in the language of \<open>r\<close>.\<close>

lemma test_anchored:
  assumes p: "pattern re = Seq Bol X"
    and X: "\<And>st. set (matchR (ignoreCase re) X st) = {x \<in> steps L st. rest x = []}"
  shows "test re s \<longleftrightarrow> s \<in> L"
proof -
  let ?ic = "ignoreCase re"
  have m: "set (matchR ?ic (pattern re) st) =
        (if prev st = None then {x \<in> steps L st. rest x = []} else {})" for st
    by (auto simp: p X)
  have "test re s \<longleftrightarrow> {x \<in> steps L (startState s 0). rest x = []} \<noteq> {}"
    unfolding test_iff m by (auto simp: prev_startState)
  also have "\<dots> \<longleftrightarrow> s \<in> L"
  proof
    assume "{x \<in> steps L (startState s 0). rest x = []} \<noteq> {}"
    then obtain w t where w: "w \<in> L" and r: "s = w @ t"
      and e: "rest (adv (startState s 0) w) = []"
      by (auto simp: steps_def startState_0)
    from r have "rest (adv (startState s 0) w) = t" by (simp add: adv_def startState_0)
    with e r w show "s \<in> L" by simp
  next
    assume w: "s \<in> L"
    have "rest (startState s 0) = s @ []" by (simp add: startState_0)
    with w have "adv (startState s 0) s \<in> steps L (startState s 0)"
      unfolding steps_def by blast
    moreover have "rest (adv (startState s 0) s) = []" by (simp add: adv_def startState_0)
    ultimately show "{x \<in> steps L (startState s 0). rest x = []} \<noteq> {}" by blast
  qed
  finally show ?thesis .
qed

lemma matchR_Eol_end: "set (matchR ic (Seq Eol Eps) st) = (if rest st = [] then {st} else {})"
  by simp

lemma matchR_simple_end:
  "simple r \<Longrightarrow> set (matchR ic (Seq r (Seq Eol Eps)) st) = {x \<in> steps (lang ic r) st. rest x = []}"
  by (auto simp: matchR_lang)

lemma matchR_simple_Seq:
  assumes "simple r" and X: "\<And>st. set (matchR ic X st) = {x \<in> steps L st. rest x = []}"
  shows "set (matchR ic (Seq r X) st) = {x \<in> steps (cat (lang ic r) L) st. rest x = []}"
  by (auto simp: matchR_lang[OF assms(1)] X steps_cat)

lemma pw_class: "pw {[c] | c. P c} n = {w. length w = n \<and> list_all P w}"
proof (induction n)
  case 0
  show ?case by auto
next
  case (Suc n)
  show ?case
  proof (intro set_eqI iffI)
    fix w assume "w \<in> pw {[c] | c. P c} (Suc n)"
    then obtain c v where "P c" "v \<in> pw {[c] | c. P c} n" "w = [c] @ v"
      by (auto simp: cat_def)
    with Suc show "w \<in> {w. length w = Suc n \<and> list_all P w}" by simp
  next
    fix w assume "w \<in> {w. length w = Suc n \<and> list_all P w}"
    then obtain c v where w: "w = c # v" and "P c" "length v = n" "list_all P v"
      by (cases w) auto
    with Suc have "[c] \<in> {[c] | c. P c}" "v \<in> pw {[c] | c. P c} n" by auto
    then have "[c] @ v \<in> cat {[c] | c. P c} (pw {[c] | c. P c} n)"
      unfolding cat_def by blast
    with w show "w \<in> pw {[c] | c. P c} (Suc n)" by simp
  qed
qed

lemma lang_Rep_Cls:
  "lang ic (Rep mn mx g (Cls its)) =
     {w. mn \<le> length w \<and> inMax (length w) mx \<and> list_all (inClass ic its) w}"
  by (auto simp: pw_class)

lemma lang_lit: "lang False (lit s) = {s}"
proof (induction s)
  case Nil
  show ?case by simp
next
  case (Cons c cs)
  then show ?case by (auto simp: cat_def inClass_def inItems_def)
qed

lemma simple_lit [simp]: "simple (lit s)"
  by (induction s) simp_all

lemma inClass_digit [simp]: "inClass False [Digit] = isDigit"
  by (rule ext) (simp add: inClass_def inItems_def)

lemma inClass_upper [simp]: "inClass False [Rng CHR ''A'' CHR ''Z''] = isUpperAZ"
  by (rule ext) (simp add: inClass_def inItems_def isUpperAZ_def code_def)

lemma inClass_alnum [simp]: "inClass False alnum = (\<lambda>c. isUpperAZ c \<or> isDigit c)"
  by (rule ext) (simp add: inClass_def inItems_def alnum_def isUpperAZ_def isDigit_def code_def)

lemma lang_rTimes_Cls:
  "lang ic (rTimes n (Cls its)) = {w. length w = n \<and> list_all (inClass ic its) w}"
  unfolding rTimes_def lang_Rep_Cls by (auto simp: inMax_def)

lemma lang_rRange_Cls:
  "lang ic (rRange m n (Cls its)) = {w. m \<le> length w \<and> length w \<le> n \<and> list_all (inClass ic its) w}"
  unfolding rRange_def lang_Rep_Cls by (auto simp: inMax_def)

lemma simple_rTimes_Cls [simp]: "simple (rTimes n (Cls its))"
  by (simp add: rTimes_def inMax_def)

lemma simple_rRange_Cls [simp]: "m \<le> n \<Longrightarrow> simple (rRange m n (Cls its))"
  by (simp add: rRange_def inMax_def)

lemma test_LAST4: "test LAST4_RE s \<longleftrightarrow> length s = 4 \<and> list_all isDigit s"
  using test_anchored[of LAST4_RE "seqs [rTimes 4 dig, Eol]" "lang False (rTimes 4 dig)" s]
  by (simp add: LAST4_RE_def matchR_simple_end dig_def lang_rTimes_Cls del: matchR.simps lang.simps)

lemma test_ROUTING_DIGITS: "test ROUTING_DIGITS_RE s \<longleftrightarrow> length s = 9 \<and> list_all isDigit s"
  using test_anchored[of ROUTING_DIGITS_RE "seqs [rTimes 9 dig, Eol]" "lang False (rTimes 9 dig)" s]
  by (simp add: ROUTING_DIGITS_RE_def matchR_simple_end dig_def lang_rTimes_Cls del: matchR.simps lang.simps)

lemma test_ACCOUNT_DIGITS:
  "test ACCOUNT_DIGITS_RE s \<longleftrightarrow> 6 \<le> length s \<and> length s \<le> 17 \<and> list_all isDigit s"
  using test_anchored[of ACCOUNT_DIGITS_RE "seqs [rRange 6 17 dig, Eol]" "lang False (rRange 6 17 dig)" s]
  by (simp add: ACCOUNT_DIGITS_RE_def matchR_simple_end dig_def lang_rRange_Cls del: matchR.simps lang.simps)

lemma cat_lengths:
  "cat {w. length w = n \<and> P w} B = {w. n \<le> length w \<and> P (take n w) \<and> drop n w \<in> B}"
proof (intro set_eqI iffI)
  fix w assume "w \<in> cat {w. length w = n \<and> P w} B"
  then obtain u v where "length u = n" "P u" "v \<in> B" "w = u @ v" by (auto simp: cat_def)
  then show "w \<in> {w. n \<le> length w \<and> P (take n w) \<and> drop n w \<in> B}" by simp
next
  fix w assume "w \<in> {w. n \<le> length w \<and> P (take n w) \<and> drop n w \<in> B}"
  then have "length (take n w) = n" "P (take n w)" "drop n w \<in> B" by simp_all
  then have "take n w @ drop n w \<in> cat {w. length w = n \<and> P w} B"
    unfolding cat_def by blast
  then show "w \<in> cat {w. length w = n \<and> P w} B" by simp
qed

lemma test_IBAN_SHAPE: "test IBAN_SHAPE_RE s \<longleftrightarrow> ibanShape s"
proof -
  let ?A = "rTimes 2 (Cls [Rng CHR ''A'' CHR ''Z''])"
  let ?B = "rTimes 2 dig"
  let ?C = "rRange 11 30 (Cls alnum)"
  let ?L = "cat (lang False ?A) (cat (lang False ?B) (lang False ?C))"
  have C: "set (matchR False (Seq ?C (Seq Eol Eps)) st) = {x \<in> steps (lang False ?C) st. rest x = []}" for st
    by (rule matchR_simple_end) simp
  have B: "set (matchR False (Seq ?B (Seq ?C (Seq Eol Eps))) st) =
      {x \<in> steps (cat (lang False ?B) (lang False ?C)) st. rest x = []}" for st
    by (rule matchR_simple_Seq[OF _ C]) (simp add: dig_def)
  have A: "set (matchR False (Seq ?A (Seq ?B (Seq ?C (Seq Eol Eps)))) st) =
      {x \<in> steps ?L st. rest x = []}" for st
    by (rule matchR_simple_Seq[OF _ B]) simp
  have "test IBAN_SHAPE_RE s \<longleftrightarrow> s \<in> ?L"
  proof (rule test_anchored)
    show "pattern IBAN_SHAPE_RE = Seq Bol (Seq ?A (Seq ?B (Seq ?C (Seq Eol Eps))))"
      by (simp add: IBAN_SHAPE_RE_def)
    show "set (matchR (ignoreCase IBAN_SHAPE_RE) (Seq ?A (Seq ?B (Seq ?C (Seq Eol Eps)))) st) =
      {x \<in> steps ?L st. rest x = []}" for st
      using A[of st] by (simp add: IBAN_SHAPE_RE_def del: matchR.simps lang.simps)
  qed
  also have "\<dots> \<longleftrightarrow> ibanShape s"
    unfolding dig_def lang_rTimes_Cls lang_rRange_Cls cat_lengths
    by (auto simp: ibanShape_def)
  finally show ?thesis .
qed

section \<open>The IBAN check\<close>

lemma ibanLoop_fold:
  "list_all (\<lambda>c. isUpperAZ c \<or> isDigit c) cs \<Longrightarrow>
   ibanLoop cs m = Some (foldl (\<lambda>m d. (m * 10 + d) mod 97) m (ibanDigits cs))"
proof (induction cs arbitrary: m)
  case Nil
  show ?case by (simp add: ibanDigits_def)
next
  case (Cons c cs)
  then have c: "isUpperAZ c \<or> isDigit c" and cs: "list_all (\<lambda>c. isUpperAZ c \<or> isDigit c) cs"
    by simp_all
  have tl: "ibanDigits (c # cs) = (if isDigit c then [code c - 48]
      else [(code c - 55) div 10, (code c - 55) mod 10]) @ ibanDigits cs"
    by (simp add: ibanDigits_def)
  show ?case
  proof (cases "isDigit c")
    case True
    then have "code c \<ge> 48 \<and> code c \<le> 57" by (simp add: isDigit_def)
    then show ?thesis using True Cons.IH[OF cs] by (simp add: tl Let_def)
  next
    case False
    with c have "isUpperAZ c" by simp
    then have u: "code c \<ge> 65 \<and> code c \<le> 90" by (simp add: isUpperAZ_def)
    then have "\<not> (code c \<ge> 48 \<and> code c \<le> 57)" by simp
    then show ?thesis using False u Cons.IH[OF cs] by (simp add: tl Let_def)
  qed
qed

lemma ibanLoop_chars:
  "ibanLoop cs m = Some v \<Longrightarrow> list_all (\<lambda>c. isUpperAZ c \<or> isDigit c) cs"
proof (induction cs arbitrary: m)
  case Nil
  show ?case by simp
next
  case (Cons c cs)
  then show ?case
    by (auto simp: Let_def isDigit_def isUpperAZ_def split: if_splits)
qed

lemma ibanShape_chars: "ibanShape s \<Longrightarrow> list_all (\<lambda>c. isUpperAZ c \<or> isDigit c) s"
proof -
  assume a: "ibanShape s"
  have "s = take 2 s @ take 2 (drop 2 s) @ drop 4 s"
    by (metis append_take_drop_id drop_drop numeral_Bit0 add.commute)
  moreover from a have "list_all (\<lambda>c. isUpperAZ c \<or> isDigit c) (take 2 s @ take 2 (drop 2 s) @ drop 4 s)"
    by (auto simp: ibanShape_def list_all_iff)
  ultimately show ?thesis by simp
qed

lemma isValidIban_iff:
  "isValidIban s \<longleftrightarrow> ibanShape s \<and> mod97 (ibanDigits (rearranged s)) = 1"
proof (cases "ibanShape s")
  case False
  then show ?thesis by (simp add: isValidIban_def test_IBAN_SHAPE)
next
  case True
  from ibanShape_chars[OF True] have "list_all (\<lambda>c. isUpperAZ c \<or> isDigit c) s" .
  then have "list_all (\<lambda>c. isUpperAZ c \<or> isDigit c) (drop 4 s @ take 4 s)"
    by (auto simp: list_all_iff dest: in_set_dropD in_set_takeD)
  from ibanLoop_fold[OF this, of 0] True show ?thesis
    by (simp add: isValidIban_def test_IBAN_SHAPE mod97_def rearranged_def Let_def)
qed

lemma mod97_fold_decimal:
  "foldl (\<lambda>m d. (m * 10 + d) mod 97) ((a::int) mod 97) ds = foldl (\<lambda>n d. n * 10 + d) a ds mod 97"
proof (induction ds arbitrary: a)
  case Nil
  show ?case by simp
next
  case (Cons d ds)
  have "(a mod 97 * 10 + d) mod 97 = (a * 10 + d) mod 97"
    by (metis mod_add_left_eq mod_mult_left_eq)
  then show ?case using Cons.IH[of "a * 10 + d"] by simp
qed

lemma mod97_decimalValue: "mod97 ds = decimalValue ds mod 97"
  using mod97_fold_decimal[of 0 ds] by (simp add: mod97_def decimalValue_def)

lemma gbIban_mutations:
  "list_all (\<lambda>i. list_all (\<lambda>c. \<not> isDigit (gbIban ! i) \<or> c = gbIban ! i \<or>
       ibanLoop (drop 4 (gbIban[i := c]) @ take 4 (gbIban[i := c])) 0 \<noteq> Some 1) ''0123456789'')
     [0..<22]"
  by code_simp


lemma code_inj: "code a = code b \<longleftrightarrow> a = b"
  by (simp add: code_def)

lemma isDigit_set: "isDigit c \<longleftrightarrow> c \<in> set ''0123456789''"
proof
  assume "isDigit c"
  then have "code c = 48 \<or> code c = 49 \<or> code c = 50 \<or> code c = 51 \<or> code c = 52 \<or>
      code c = 53 \<or> code c = 54 \<or> code c = 55 \<or> code c = 56 \<or> code c = 57"
    unfolding isDigit_def by arith
  then have "code c = code CHR ''0'' \<or> code c = code CHR ''1'' \<or> code c = code CHR ''2'' \<or>
      code c = code CHR ''3'' \<or> code c = code CHR ''4'' \<or> code c = code CHR ''5'' \<or>
      code c = code CHR ''6'' \<or> code c = code CHR ''7'' \<or> code c = code CHR ''8'' \<or>
      code c = code CHR ''9''"
    by (simp add: code_def)
  then show "c \<in> set ''0123456789''"
    unfolding code_inj by simp
next
  assume "c \<in> set ''0123456789''"
  then show "isDigit c"
    by (auto simp: isDigit_def code_def)
qed

section \<open>Maps and first occurrences\<close>

lemma mapHas_iff: "mapHas u k \<longleftrightarrow> k \<in> fst ` set u"
  by (simp add: mapHas_def map_of_eq_None_iff)

lemma putNew_eq: "putNew u kv = (if fst kv \<in> fst ` set u then u else u @ [kv])"
  by (simp add: putNew_def mapSet_def mapHas_iff)

lemma foldl_putNew:
  "foldl putNew u kvs = u @ firstByKey (filter (\<lambda>e. fst e \<notin> fst ` set u) kvs)"
proof (induction kvs arbitrary: u)
  case Nil
  show ?case by simp
next
  case (Cons kv kvs)
  show ?case
  proof (cases "fst kv \<in> fst ` set u")
    case True
    then show ?thesis using Cons.IH[of u] by (simp add: putNew_eq)
  next
    case False
    have "filter (\<lambda>e. fst e \<notin> fst ` set (u @ [kv])) kvs =
          filter (\<lambda>e. fst e \<noteq> fst kv) (filter (\<lambda>e. fst e \<notin> fst ` set u) kvs)"
      by (auto intro: filter_cong)
    with False show ?thesis using Cons.IH[of "u @ [kv]"] by (simp add: putNew_eq)
  qed
qed

lemma set_firstByKey: "set (firstByKey kvs) \<subseteq> set kvs"
  by (induction kvs rule: firstByKey.induct) auto

lemma keys_firstByKey: "fst ` set (firstByKey kvs) = fst ` set kvs"
proof (induction kvs rule: firstByKey.induct)
  case 1
  show ?case by simp
next
  case (2 kv kvs)
  have "fst ` set (filter (\<lambda>e. fst e \<noteq> fst kv) kvs) = fst ` set kvs - {fst kv}"
    by auto
  with 2 show ?case by auto
qed

lemma distinct_firstByKey: "distinct (map fst (firstByKey kvs))"
proof (induction kvs rule: firstByKey.induct)
  case 1
  show ?case by simp
next
  case (2 kv kvs)
  have "fst kv \<notin> fst ` set (firstByKey (filter (\<lambda>e. fst e \<noteq> fst kv) kvs))"
    unfolding keys_firstByKey by auto
  with 2 show ?case by simp
qed

lemma map_of_firstByKey: "map_of (firstByKey kvs) = map_of kvs"
proof (induction kvs rule: firstByKey.induct)
  case 1
  show ?case by simp
next
  case (2 kv kvs)
  have "map_of (filter (\<lambda>e. fst e \<noteq> fst kv) kvs) k = map_of kvs k" if "k \<noteq> fst kv" for k
    using that by (induction kvs) auto
  with 2 show ?case by (cases kv) (auto simp: fun_eq_iff)
qed

lemma firstByKey_disjoint:
  "(\<And>e. e \<in> set kvs \<Longrightarrow> fst e \<notin> fst ` set u) \<Longrightarrow> foldl putNew u kvs = u @ firstByKey kvs"
  by (simp add: foldl_putNew filter_id_conv)

lemma pushAll_eq: "pushAll t vs out = out @ tagged t vs"
  by (induction vs arbitrary: out) (simp_all add: tagged_def)

section \<open>The loops as folds\<close>

lemma matchAllUniqueLoop_fold:
  "matchAllUniqueLoop ms u = foldl putNew u (List.map_filter uniqueCand ms)"
  by (induction ms arbitrary: u) (simp_all add: map_filter_simps uniqueCand_def putNew_def Let_def)

lemma findSsnLast4Loop_fold:
  "findSsnLast4Loop ms u = foldl putNew u (List.map_filter last4Cand ms)"
  by (induction ms arbitrary: u) (simp_all add: map_filter_simps last4Cand_def putNew_def Let_def)

lemma findCreditCardsLoop_fold:
  "findCreditCardsLoop text ms u = foldl putNew u (List.map_filter (cardCand text) ms)"
  by (induction ms arbitrary: u) (simp_all add: map_filter_simps cardCand_def putNew_def Let_def)

lemma ibanScan_fold: "ibanScan ms u = foldl putNew u (List.map_filter ibanCand ms)"
  by (induction ms arbitrary: u) (simp_all add: map_filter_simps ibanCand_def putNew_def Let_def)

lemma routingScan_fold: "routingScan ms u = foldl putNew u (List.map_filter routingCand ms)"
  by (induction ms arbitrary: u) (simp_all add: map_filter_simps routingCand_def putNew_def Let_def)

lemma accountScan_fold: "accountScan ms u = foldl putNew u (List.map_filter accountCand ms)"
  by (induction ms arbitrary: u) (simp_all add: map_filter_simps accountCand_def putNew_def Let_def)

lemma sortCodeScan_fold: "sortCodeScan ms u = foldl putNew u (List.map_filter sortCand ms)"
  by (induction ms arbitrary: u) (simp_all add: map_filter_simps sortCand_def putNew_def Let_def)

section \<open>Every scan ends\<close>

lemma minLen_lit [simp]: "minLen (lit s) = length s"
  by (induction s) simp_all

lemma minLen_patterns:
  "0 < minLen (pattern EMAIL_RE)" "0 < minLen (pattern SSN_RE)"
  "0 < minLen (pattern SSN_LAST4_CONTEXT_RE)" "0 < minLen (pattern PHONE_RE)"
  "0 < minLen (pattern CARD_CANDIDATE_RE)" "0 < minLen (pattern IBAN_CANDIDATE_RE)"
  "0 < minLen (pattern ROUTING_RE)" "0 < minLen (pattern ACCOUNT_RE)"
  "0 < minLen (pattern SORT_CODE_RE)" "0 < minLen (pattern INS_POLICY_RE)"
  "0 < minLen (pattern EMPLOYEE_ID_RE)" "0 < minLen (pattern MRN_RE)"
  by (simp_all add: EMAIL_RE_def SSN_RE_def SSN_LAST4_CONTEXT_RE_def PHONE_RE_def
      CARD_CANDIDATE_RE_def IBAN_CANDIDATE_RE_def ROUTING_RE_def ACCOUNT_RE_def SORT_CODE_RE_def
      INS_POLICY_RE_def EMPLOYEE_ID_RE_def MRN_RE_def
      rPlus_def rStar_def rLazyStar_def rOpt_def rTimes_def rRange_def rAtLeast_def repMin_def
      dig_def ws_def sep_def dashSpace_def colonDash_def)

lemma execAll_scan: "0 < minLen (pattern re) \<Longrightarrow> execAll re s 0 = Some (scan re s)"
  using execAll_total[of re s 0] by (auto simp: scan_def)


section \<open>The families\<close>

lemma entries_fold: "foldl putNew [] (List.map_filter cand (scan re s)) = entries cand re s"
  by (simp add: foldl_putNew entries_def)

lemma matchAllUnique_eq:
  "0 < minLen (pattern re) \<Longrightarrow> matchAllUnique s re = Some (map snd (entries uniqueCand re s))"
  by (simp add: matchAllUnique_def execAll_scan matchAllUniqueLoop_fold entries_fold mapValues_def)

lemma findSsnLast4_eq:
  "findSsnLast4 s = Some (map snd (entries last4Cand SSN_LAST4_CONTEXT_RE s))"
  by (simp add: findSsnLast4_def execAll_scan minLen_patterns findSsnLast4Loop_fold entries_fold
      mapValues_def)

lemma findCreditCards_eq:
  "findCreditCards s = Some (map snd (entries (cardCand s) CARD_CANDIDATE_RE s))"
  by (simp add: findCreditCards_def execAll_scan minLen_patterns findCreditCardsLoop_fold
      entries_fold mapValues_def)

lemma set_map_filter:
  "set (List.map_filter f xs) = {y. \<exists>x\<in>set xs. f x = Some y}"
  by (induction xs) (auto split: option.splits)

lemma set_entries:
  "e \<in> set (entries cand re s) \<Longrightarrow> \<exists>m\<in>set (scan re s). cand m = Some e"
  using set_firstByKey[of "List.map_filter cand (scan re s)"]
  by (auto simp: entries_def set_map_filter)

lemma keys_entries:
  "k \<in> fst ` set (entries cand re s) \<Longrightarrow> \<exists>m v. m \<in> set (scan re s) \<and> cand m = Some (k, v)"
  using set_entries[of _ cand re s] by force

lemma ibanCand_Some:
  "ibanCand m = Some (k, v) \<Longrightarrow>
     v = trim (m0 m) \<and> k = toUpperCase (stripSpaces v) \<and> isValidIban k"
  by (auto simp: ibanCand_def Let_def split: if_splits)

lemma routingCand_Some:
  "routingCand m = Some (k, v) \<Longrightarrow>
     v = trim (group1 m) \<and> k = ''routing:'' @ v \<and> length v = 9 \<and> list_all isDigit v"
  by (auto simp: routingCand_def Let_def test_ROUTING_DIGITS split: if_splits)

lemma accountCand_Some:
  "accountCand m = Some (k, v) \<Longrightarrow>
     v = trim (group1 m) \<and> k = ''account:'' @ v \<and> 6 \<le> length v \<and> length v \<le> 17 \<and>
     list_all isDigit v"
  by (auto simp: accountCand_def Let_def test_ACCOUNT_DIGITS split: if_splits)

lemma sortCand_Some:
  "sortCand m = Some (k, v) \<Longrightarrow>
     v = trim (group1 m) \<and> k = ''sort:'' @ digitsOnly v \<and> length (digitsOnly v) = 6"
  by (auto simp: sortCand_def Let_def split: if_splits)

lemma uniqueCand_Some:
  "uniqueCand m = Some (k, v) \<Longrightarrow> v = trim (m0 m) \<and> k = toLowerCase v \<and> v \<noteq> []"
  by (auto simp: uniqueCand_def Let_def split: if_splits)

lemma last4Cand_Some:
  "last4Cand m = Some (k, v) \<Longrightarrow>
     v = trim (group1 m) \<and> k = v \<and> length v = 4 \<and> list_all isDigit v \<and>
     \<not> (1900 \<le> Number v \<and> Number v \<le> 2099)"
  by (auto simp: last4Cand_def Let_def test_LAST4 split: if_splits)

lemma cardCand_Some:
  "cardCand s m = Some (k, v) \<Longrightarrow>
     v = trim (m0 m) \<and> k = digitsOnly v \<and> 13 \<le> length k \<and> length k \<le> 19"
  by (auto simp: cardCand_def Let_def split: if_splits)

lemma isValidIban_shape: "isValidIban k \<Longrightarrow> ibanShape k"
  by (simp add: isValidIban_iff)

lemma ibanShape_hd: "ibanShape k \<Longrightarrow> k \<noteq> [] \<and> isUpperAZ (hd k)"
  by (cases k) (auto simp: ibanShape_def)

lemma not_upper_ras:
  "\<not> isUpperAZ CHR ''r''" "\<not> isUpperAZ CHR ''a''" "\<not> isUpperAZ CHR ''s''"
  by (simp_all add: isUpperAZ_def code_def)

lemma findBankEntries_eq:
  "findBankEntries s = Some (entries ibanCand IBAN_CANDIDATE_RE s @ entries routingCand ROUTING_RE s @
      entries accountCand ACCOUNT_RE s @ entries sortCand SORT_CODE_RE s)"
proof -
  let ?I = "entries ibanCand IBAN_CANDIDATE_RE s"
  let ?R = "entries routingCand ROUTING_RE s"
  let ?A = "entries accountCand ACCOUNT_RE s"
  let ?S = "entries sortCand SORT_CODE_RE s"
  have kI: "k \<noteq> [] \<and> isUpperAZ (hd k)" if "k \<in> fst ` set ?I" for k
    using keys_entries[OF that] ibanCand_Some isValidIban_shape ibanShape_hd by blast
  have kR: "hd k = CHR ''r''" if "k \<in> fst ` set ?R" for k
    using keys_entries[OF that] routingCand_Some by fastforce
  have kA: "hd k = CHR ''a''" if "k \<in> fst ` set ?A" for k
    using keys_entries[OF that] accountCand_Some by fastforce
  have cR: "hd (fst e) = CHR ''r''" if "e \<in> set (List.map_filter routingCand ms)" for e ms
  proof -
    from that obtain m where "routingCand m = Some e" by (auto simp: set_map_filter)
    then show ?thesis using routingCand_Some[of m "fst e" "snd e"] by simp
  qed
  have cA: "hd (fst e) = CHR ''a''" if "e \<in> set (List.map_filter accountCand ms)" for e ms
  proof -
    from that obtain m where "accountCand m = Some e" by (auto simp: set_map_filter)
    then show ?thesis using accountCand_Some[of m "fst e" "snd e"] by simp
  qed
  have cS: "hd (fst e) = CHR ''s''" if "e \<in> set (List.map_filter sortCand ms)" for e ms
  proof -
    from that obtain m where "sortCand m = Some e" by (auto simp: set_map_filter)
    then show ?thesis using sortCand_Some[of m "fst e" "snd e"] by simp
  qed
  have 1: "foldl putNew ?I (List.map_filter routingCand (scan ROUTING_RE s)) = ?I @ ?R"
    unfolding entries_def[of routingCand]
  proof (rule firstByKey_disjoint)
    fix e assume "e \<in> set (List.map_filter routingCand (scan ROUTING_RE s))"
    from cR[OF this] have h: "hd (fst e) = CHR ''r''" .
    show "fst e \<notin> fst ` set ?I"
    proof
      assume "fst e \<in> fst ` set ?I"
      from kI[OF this] h not_upper_ras show False by simp
    qed
  qed
  have 2: "foldl putNew (?I @ ?R) (List.map_filter accountCand (scan ACCOUNT_RE s)) = (?I @ ?R) @ ?A"
    unfolding entries_def[of accountCand]
  proof (rule firstByKey_disjoint)
    fix e assume "e \<in> set (List.map_filter accountCand (scan ACCOUNT_RE s))"
    from cA[OF this] have h: "hd (fst e) = CHR ''a''" .
    show "fst e \<notin> fst ` set (?I @ ?R)"
    proof
      assume "fst e \<in> fst ` set (?I @ ?R)"
      then have "fst e \<in> fst ` set ?I \<or> fst e \<in> fst ` set ?R" by auto
      then show False
      proof
        assume "fst e \<in> fst ` set ?I"
        from kI[OF this] h not_upper_ras show False by simp
      next
        assume "fst e \<in> fst ` set ?R"
        from kR[OF this] h show False by simp
      qed
    qed
  qed
  have 3: "foldl putNew ((?I @ ?R) @ ?A) (List.map_filter sortCand (scan SORT_CODE_RE s)) =
        ((?I @ ?R) @ ?A) @ ?S"
    unfolding entries_def[of sortCand]
  proof (rule firstByKey_disjoint)
    fix e assume "e \<in> set (List.map_filter sortCand (scan SORT_CODE_RE s))"
    from cS[OF this] have h: "hd (fst e) = CHR ''s''" .
    show "fst e \<notin> fst ` set ((?I @ ?R) @ ?A)"
    proof
      assume "fst e \<in> fst ` set ((?I @ ?R) @ ?A)"
      then have "fst e \<in> fst ` set ?I \<or> fst e \<in> fst ` set ?R \<or> fst e \<in> fst ` set ?A" by auto
      then show False
      proof (elim disjE)
        assume "fst e \<in> fst ` set ?I"
        from kI[OF this] h not_upper_ras show False by simp
      next
        assume "fst e \<in> fst ` set ?R"
        from kR[OF this] h show False by simp
      next
        assume "fst e \<in> fst ` set ?A"
        from kA[OF this] h show False by simp
      qed
    qed
  qed
  have ex: "execAll IBAN_CANDIDATE_RE s 0 = Some (scan IBAN_CANDIDATE_RE s)"
    "execAll ROUTING_RE s 0 = Some (scan ROUTING_RE s)"
    "execAll ACCOUNT_RE s 0 = Some (scan ACCOUNT_RE s)"
    "execAll SORT_CODE_RE s 0 = Some (scan SORT_CODE_RE s)"
    by (rule execAll_scan, rule minLen_patterns)+
  have "findBankEntries s = Some (foldl putNew (foldl putNew (foldl putNew
      (foldl putNew [] (List.map_filter ibanCand (scan IBAN_CANDIDATE_RE s)))
      (List.map_filter routingCand (scan ROUTING_RE s)))
      (List.map_filter accountCand (scan ACCOUNT_RE s)))
      (List.map_filter sortCand (scan SORT_CODE_RE s)))"
    unfolding findBankEntries_def ex ibanScan_fold routingScan_fold accountScan_fold sortCodeScan_fold
    by simp
  then show ?thesis
    unfolding entries_fold 1 2 3 by simp
qed

lemma findBankAccounts_eq:
  "findBankAccounts s = Some (map snd (entries ibanCand IBAN_CANDIDATE_RE s) @
      map snd (entries routingCand ROUTING_RE s) @ map snd (entries accountCand ACCOUNT_RE s) @
      map snd (entries sortCand SORT_CODE_RE s))"
  by (simp add: findBankAccounts_def findBankEntries_eq mapValues_def)

lemma matchAllUnique_patterns:
  "matchAllUnique s EMAIL_RE = Some (map snd (entries uniqueCand EMAIL_RE s))"
  "matchAllUnique s SSN_RE = Some (map snd (entries uniqueCand SSN_RE s))"
  "matchAllUnique s PHONE_RE = Some (map snd (entries uniqueCand PHONE_RE s))"
  "matchAllUnique s INS_POLICY_RE = Some (map snd (entries uniqueCand INS_POLICY_RE s))"
  "matchAllUnique s EMPLOYEE_ID_RE = Some (map snd (entries uniqueCand EMPLOYEE_ID_RE s))"
  "matchAllUnique s MRN_RE = Some (map snd (entries uniqueCand MRN_RE s))"
  by (rule matchAllUnique_eq, rule minLen_patterns)+

lemma findSensitiveMatches_eq:
  "findSensitiveMatches s = Some
     (tagged Email (map snd (entries uniqueCand EMAIL_RE s)) @
      tagged Ssn (map snd (entries uniqueCand SSN_RE s)) @
      tagged Ssn (map snd (entries last4Cand SSN_LAST4_CONTEXT_RE s)) @
      tagged Phone (map snd (entries uniqueCand PHONE_RE s)) @
      tagged Card (map snd (entries (cardCand s) CARD_CANDIDATE_RE s)) @
      tagged Bank (map snd (entries ibanCand IBAN_CANDIDATE_RE s) @
                   map snd (entries routingCand ROUTING_RE s) @
                   map snd (entries accountCand ACCOUNT_RE s) @
                   map snd (entries sortCand SORT_CODE_RE s)) @
      tagged InsurancePolicy (map snd (entries uniqueCand INS_POLICY_RE s)) @
      tagged EmployeeId (map snd (entries uniqueCand EMPLOYEE_ID_RE s)) @
      tagged MedicalRecordNumber (map snd (entries uniqueCand MRN_RE s)))"
  unfolding findSensitiveMatches_def matchAllUnique_patterns findSsnLast4_eq findCreditCards_eq
    findBankAccounts_eq pushAll_eq
  by simp

section \<open>Trimming\<close>

lemma last_dropWhile: "dropWhile P xs \<noteq> [] \<Longrightarrow> last (dropWhile P xs) = last xs"
  by (metis last_appendR takeWhile_dropWhile_id)

lemma trim_ends:
  assumes "trim s \<noteq> []"
  shows "\<not> isSpace (hd (trim s))" and "\<not> isSpace (last (trim s))"
proof -
  let ?a = "dropWhile isSpace s"
  let ?b = "dropWhile isSpace (rev ?a)"
  from assms have b: "?b \<noteq> []" by (simp add: trim_def)
  have a: "?a \<noteq> []"
  proof
    assume e: "?a = []"
    have "?b = []" unfolding e by simp
    with b show False by simp
  qed
  from b have "\<not> isSpace (hd ?b)" by (rule hd_dropWhile)
  with b show "\<not> isSpace (last (trim s))" by (simp add: trim_def last_rev)
  from b have "last ?b = last (rev ?a)" by (rule last_dropWhile)
  with a have "last ?b = hd ?a" by (simp add: last_rev)
  moreover from a have "\<not> isSpace (hd ?a)" by (rule hd_dropWhile)
  ultimately show "\<not> isSpace (hd (trim s))" using b by (simp add: trim_def hd_rev)
qed

lemma trim_id: "s \<noteq> [] \<Longrightarrow> \<not> isSpace (hd s) \<Longrightarrow> \<not> isSpace (last s) \<Longrightarrow> trim s = s"
proof -
  assume s: "s \<noteq> []" and h: "\<not> isSpace (hd s)" and l: "\<not> isSpace (last s)"
  from s h have 1: "dropWhile isSpace s = s" by (cases s) simp_all
  from s l have "\<not> isSpace (hd (rev s))" by (simp add: hd_rev)
  with s have "dropWhile isSpace (rev s) = rev s" by (cases "rev s") simp_all
  with 1 show ?thesis by (simp add: trim_def)
qed

lemma trim_Nil [simp]: "trim [] = []"
  by (simp add: trim_def)

lemma trim_idem [simp]: "trim (trim s) = trim s"
proof (cases "trim s = []")
  case True
  then show ?thesis by simp
next
  case False
  from trim_id[OF False trim_ends[OF False]] show ?thesis .
qed

lemma digit_not_space: "isDigit c \<Longrightarrow> \<not> isSpace c"
  by (auto simp: isDigit_def isSpace_def)

lemma trim_digits: "list_all isDigit s \<Longrightarrow> trim s = s"
proof (cases "s = []")
  case True
  then show ?thesis by simp
next
  case False
  assume "list_all isDigit s"
  with False have "isDigit (hd s)" "isDigit (last s)" by (auto simp: list_all_iff)
  with False show ?thesis by (simp add: trim_id digit_not_space)
qed

lemma lowerChar_digit: "isDigit c \<Longrightarrow> lowerChar c = c"
  by (auto simp: lowerChar_def isDigit_def)

lemma toLowerCase_digits: "list_all isDigit s \<Longrightarrow> toLowerCase s = s"
  by (induction s) (simp_all add: toLowerCase_def lowerChar_digit)

section \<open>The value of every candidate\<close>

lemma clean_trim: "trim s \<noteq> [] \<Longrightarrow> clean (trim s)"
  by (simp add: clean_def trim_ends)

lemma digitsOnly_Nil [simp]: "digitsOnly [] = []"
  by (simp add: digitsOnly_def)

lemma not_ibanShape_Nil: "\<not> ibanShape (toUpperCase (stripSpaces []))"
  by (simp add: ibanShape_def toUpperCase_def stripSpaces_def)

lemma clean_trim_eq: "v = trim x \<Longrightarrow> v \<noteq> [] \<Longrightarrow> clean v"
  using clean_trim[of x] by simp

lemma uniqueCand_clean: "uniqueCand m = Some (k, v) \<Longrightarrow> clean v"
proof -
  assume "uniqueCand m = Some (k, v)"
  note h = uniqueCand_Some[OF this]
  from h have "v = trim (m0 m)" by blast
  moreover from h have "v \<noteq> []" by blast
  ultimately show ?thesis by (rule clean_trim_eq)
qed

lemma last4Cand_clean: "last4Cand m = Some (k, v) \<Longrightarrow> clean v"
proof -
  assume "last4Cand m = Some (k, v)"
  note h = last4Cand_Some[OF this]
  from h have "v = trim (group1 m)" by blast
  moreover from h have "length v = 4" by blast
  then have "v \<noteq> []" by auto
  ultimately show ?thesis by (rule clean_trim_eq)
qed

lemma cardCand_clean: "cardCand s m = Some (k, v) \<Longrightarrow> clean v"
proof -
  assume "cardCand s m = Some (k, v)"
  note h = cardCand_Some[OF this]
  from h have "v = trim (m0 m)" by blast
  moreover from h have "13 \<le> length (digitsOnly v)" by blast
  then have "v \<noteq> []" by auto
  ultimately show ?thesis by (rule clean_trim_eq)
qed

lemma ibanCand_clean: "ibanCand m = Some (k, v) \<Longrightarrow> clean v"
proof -
  assume "ibanCand m = Some (k, v)"
  note h = ibanCand_Some[OF this]
  from h have "v = trim (m0 m)" by blast
  moreover from h have "isValidIban (toUpperCase (stripSpaces v))" by blast
  then have "ibanShape (toUpperCase (stripSpaces v))" by (rule isValidIban_shape)
  with not_ibanShape_Nil have "v \<noteq> []" by auto
  ultimately show ?thesis by (rule clean_trim_eq)
qed

lemma routingCand_clean: "routingCand m = Some (k, v) \<Longrightarrow> clean v"
proof -
  assume "routingCand m = Some (k, v)"
  note h = routingCand_Some[OF this]
  from h have "v = trim (group1 m)" by blast
  moreover from h have "length v = 9" by blast
  then have "v \<noteq> []" by auto
  ultimately show ?thesis by (rule clean_trim_eq)
qed

lemma accountCand_clean: "accountCand m = Some (k, v) \<Longrightarrow> clean v"
proof -
  assume "accountCand m = Some (k, v)"
  note h = accountCand_Some[OF this]
  from h have "v = trim (group1 m)" by blast
  moreover from h have "6 \<le> length v" by blast
  then have "v \<noteq> []" by auto
  ultimately show ?thesis by (rule clean_trim_eq)
qed

lemma sortCand_clean: "sortCand m = Some (k, v) \<Longrightarrow> clean v"
proof -
  assume "sortCand m = Some (k, v)"
  note h = sortCand_Some[OF this]
  from h have "v = trim (group1 m)" by blast
  moreover from h have "length (digitsOnly v) = 6" by blast
  then have "v \<noteq> []" by auto
  ultimately show ?thesis by (rule clean_trim_eq)
qed

lemma entries_clean:
  assumes v: "v \<in> set (map snd (entries cand re s))"
    and c: "\<And>m k v. cand m = Some (k, v) \<Longrightarrow> clean v"
  shows "clean v"
proof -
  from v obtain k where "(k, v) \<in> set (entries cand re s)" by auto
  from set_entries[OF this] c show ?thesis by blast
qed

lemma uniqueVals_clean: "v \<in> set (map snd (entries uniqueCand re s)) \<Longrightarrow> clean v"
  by (erule entries_clean) (rule uniqueCand_clean)

lemma last4Vals_clean: "v \<in> set (map snd (entries last4Cand re s)) \<Longrightarrow> clean v"
  by (erule entries_clean) (rule last4Cand_clean)

lemma cardVals_clean: "v \<in> set (map snd (entries (cardCand s') re s)) \<Longrightarrow> clean v"
  by (erule entries_clean) (rule cardCand_clean)

lemma ibanVals_clean: "v \<in> set (map snd (entries ibanCand re s)) \<Longrightarrow> clean v"
  by (erule entries_clean) (rule ibanCand_clean)

lemma routingVals_clean: "v \<in> set (map snd (entries routingCand re s)) \<Longrightarrow> clean v"
  by (erule entries_clean) (rule routingCand_clean)

lemma accountVals_clean: "v \<in> set (map snd (entries accountCand re s)) \<Longrightarrow> clean v"
  by (erule entries_clean) (rule accountCand_clean)

lemma sortVals_clean: "v \<in> set (map snd (entries sortCand re s)) \<Longrightarrow> clean v"
  by (erule entries_clean) (rule sortCand_clean)

lemmas families_clean = uniqueVals_clean last4Vals_clean cardVals_clean ibanVals_clean
  routingVals_clean accountVals_clean sortVals_clean

lemma set_tagged: "m \<in> set (tagged t vs) \<longleftrightarrow> ty m = t \<and> val m \<in> set vs"
  by (cases m) (auto simp: tagged_def)

section \<open>The order of a scan\<close>

lemma execAll_sorted:
  "execAll re s i = Some ms \<Longrightarrow>
     (\<forall>m\<in>set ms. i \<le> index m) \<and>
     sorted_wrt (\<lambda>a b. index a + length (m0 a) \<le> index b) ms"
proof (induction re s i arbitrary: ms rule: execAll.induct)
  case (1 re s i)
  show ?case
  proof (cases "exec re s i")
    case None
    with "1.prems" show ?thesis by (subst (asm) execAll.simps) simp
  next
    case (Some m)
    with "1.prems" have ne: "m0 m \<noteq> []"
      by (subst (asm) execAll.simps) (auto split: if_splits)
    with Some "1.prems" obtain ms' where
      ms': "execAll re s (index m + length (m0 m)) = Some ms'" and ms: "ms = m # ms'"
      by (subst (asm) execAll.simps) auto
    from "1.IH"[OF Some ne ms'] have
      a: "\<forall>m'\<in>set ms'. index m + length (m0 m) \<le> index m'"
      and b: "sorted_wrt (\<lambda>a b. index a + length (m0 a) \<le> index b) ms'" by simp_all
    from exec_index[OF Some] have c: "i \<le> index m" by simp
    from a c have "\<forall>m'\<in>set ms'. i \<le> index m'" by fastforce
    with a b c ms show ?thesis by simp
  qed
qed

lemma scan_sorted: "sorted_wrt (\<lambda>a b. index a + length (m0 a) \<le> index b) (scan re s)"
proof (cases "execAll re s 0")
  case None
  then show ?thesis by (simp add: scan_def)
next
  case (Some ms)
  with execAll_sorted[OF Some] show ?thesis by (simp add: scan_def)
qed

section \<open>The text of a match\<close>

lemma steps_mono: "L \<subseteq> L' \<Longrightarrow> steps L st \<subseteq> steps L' st"
  by (auto simp: steps_def)

lemma cat_mono: "A \<subseteq> A' \<Longrightarrow> B \<subseteq> B' \<Longrightarrow> cat A B \<subseteq> cat A' B'"
  by (auto simp: cat_def)

lemma cat_words: "cat (words a P) (words b P) \<subseteq> words (a + b) P"
  by (auto simp: cat_def words_def)

lemma words_0 [simp]: "words 0 P = {[]}"
  by (auto simp: words_def)

lemma matchR_sub_Eps: "set (matchR ic Eps st) \<subseteq> steps (words 0 P) st"
  by simp

lemma matchR_sub_WordB:
  assumes "\<And>st. set (matchR ic X st) \<subseteq> steps L st"
  shows "set (matchR ic (Seq WordB X) st) \<subseteq> steps L st"
  using assms by auto

lemma matchR_sub_simple:
  assumes s: "simple r" and l: "lang ic r \<subseteq> words a P"
    and X: "\<And>st. set (matchR ic X st) \<subseteq> steps (words b P) st"
  shows "set (matchR ic (Seq r X) st) \<subseteq> steps (words (a + b) P) st"
proof -
  have "set (matchR ic (Seq r X) st) \<subseteq> (\<Union>x\<in>steps (lang ic r) st. steps (words b P) x)"
    using X by (auto simp: matchR_lang[OF s])
  also have "\<dots> = steps (cat (lang ic r) (words b P)) st"
    by (simp add: steps_cat)
  also have "\<dots> \<subseteq> steps (words (a + b) P) st"
    by (rule steps_mono) (rule subset_trans[OF cat_mono[OF l subset_refl] cat_words])
  finally show ?thesis .
qed

lemma matchAt_lang:
  assumes sub: "\<And>st. set (matchR (ignoreCase re) (pattern re) st) \<subseteq> steps L st"
    and m: "matchAt re s i = Some m"
  shows "m0 m \<in> L"
proof -
  from matchAt_consumes[OF m] obtain st' where
    st': "st' \<in> set (matchR (ignoreCase re) (pattern re) (startState s i))"
    and d: "drop i s = m0 m @ rest st'" by blast
  from st' sub have "st' \<in> steps L (startState s i)" by blast
  then obtain w t where w: "w \<in> L" and r: "rest (startState s i) = w @ t"
    and a: "st' = adv (startState s i) w"
    by (auto simp: steps_def)
  from r a have "rest st' = t" by (simp add: rest_adv)
  with d r have "w = m0 m" by (simp add: rest_startState)
  with w show ?thesis by simp
qed

lemma scan_matchAt:
  "m \<in> set (scan re s) \<Longrightarrow> \<exists>j\<le>length s. matchAt re s j = Some m"
proof (cases "execAll re s 0")
  case None
  assume "m \<in> set (scan re s)"
  with None show ?thesis by (simp add: scan_def)
next
  case (Some ms)
  assume "m \<in> set (scan re s)"
  with Some have "m \<in> set ms" by (simp add: scan_def)
  from execAll_matchAt[OF Some this] show ?thesis .
qed

lemma lang_Cls_words: "(\<And>c. inClass ic its c \<Longrightarrow> P c) \<Longrightarrow> lang ic (Cls its) \<subseteq> words 1 P"
  by (auto simp: words_def)

lemma lang_rTimes_words:
  "(\<And>c. inClass ic its c \<Longrightarrow> P c) \<Longrightarrow> lang ic (rTimes n (Cls its)) \<subseteq> words n P"
  unfolding lang_rTimes_Cls by (auto simp: words_def list_all_iff)

lemma ssn_match_words:
  "set (matchR False (pattern SSN_RE) st) \<subseteq> steps (words 11 ssnChar) st"
proof -
  have d: "inClass False [Digit] c \<Longrightarrow> ssnChar c" for c by (simp add: ssnChar_def)
  have h: "inClass False [Ch CHR ''-''] c \<Longrightarrow> ssnChar c" for c
    by (simp add: ssnChar_def inClass_def inItems_def)
  have 0: "set (matchR False (Seq WordB Eps) st) \<subseteq> steps (words 0 ssnChar) st" for st
    by (rule matchR_sub_WordB) simp
  have 1: "set (matchR False (Seq (rTimes 4 dig) (Seq WordB Eps)) st) \<subseteq> steps (words (4 + 0) ssnChar) st" for st
    unfolding dig_def by (rule matchR_sub_simple[OF _ lang_rTimes_words 0]) (simp_all add: d)
  have 2: "set (matchR False (Seq (Cls [Ch CHR ''-'']) (Seq (rTimes 4 dig) (Seq WordB Eps))) st)
      \<subseteq> steps (words (1 + (4 + 0)) ssnChar) st" for st
    by (rule matchR_sub_simple[OF _ lang_Cls_words 1]) (simp_all add: h)
  have 3: "set (matchR False (Seq (rTimes 2 dig) (Seq (Cls [Ch CHR ''-''])
        (Seq (rTimes 4 dig) (Seq WordB Eps)))) st)
      \<subseteq> steps (words (2 + (1 + (4 + 0))) ssnChar) st" for st
    unfolding dig_def by (rule matchR_sub_simple[OF _ lang_rTimes_words 2[unfolded dig_def]]) (simp_all add: d)
  have 4: "set (matchR False (Seq (Cls [Ch CHR ''-'']) (Seq (rTimes 2 dig) (Seq (Cls [Ch CHR ''-''])
        (Seq (rTimes 4 dig) (Seq WordB Eps))))) st)
      \<subseteq> steps (words (1 + (2 + (1 + (4 + 0)))) ssnChar) st" for st
    by (rule matchR_sub_simple[OF _ lang_Cls_words 3]) (simp_all add: h)
  have 5: "set (matchR False (Seq (rTimes 3 dig) (Seq (Cls [Ch CHR ''-'']) (Seq (rTimes 2 dig)
        (Seq (Cls [Ch CHR ''-'']) (Seq (rTimes 4 dig) (Seq WordB Eps)))))) st)
      \<subseteq> steps (words (3 + (1 + (2 + (1 + (4 + 0))))) ssnChar) st" for st
    unfolding dig_def by (rule matchR_sub_simple[OF _ lang_rTimes_words 4[unfolded dig_def]]) (simp_all add: d)
  have p: "pattern SSN_RE = Seq WordB (Seq (rTimes 3 dig) (Seq (Cls [Ch CHR ''-''])
      (Seq (rTimes 2 dig) (Seq (Cls [Ch CHR ''-'']) (Seq (rTimes 4 dig) (Seq WordB Eps))))))"
    by (simp add: SSN_RE_def)
  have 6: "set (matchR False (Seq (rTimes 3 dig) (Seq (Cls [Ch CHR ''-'']) (Seq (rTimes 2 dig)
        (Seq (Cls [Ch CHR ''-'']) (Seq (rTimes 4 dig) (Seq WordB Eps)))))) st)
      \<subseteq> steps (words 11 ssnChar) st" for st
    using 5[of st] by (simp del: matchR.simps)
  show ?thesis unfolding p by (rule matchR_sub_WordB) (rule 6)
qed


lemma ssnChar_not_space: "ssnChar c \<Longrightarrow> \<not> isSpace c"
  by (auto simp: ssnChar_def isDigit_def isSpace_def code_def)

lemma trim_no_space: "list_all (\<lambda>c. \<not> isSpace c) s \<Longrightarrow> trim s = s"
proof (cases "s = []")
  case True
  then show ?thesis by simp
next
  case False
  assume "list_all (\<lambda>c. \<not> isSpace c) s"
  with False have "\<not> isSpace (hd s)" "\<not> isSpace (last s)" by (auto simp: list_all_iff)
  with False show ?thesis by (simp add: trim_id)
qed

lemma ssn_key_length:
  assumes "k \<in> fst ` set (entries uniqueCand SSN_RE s)"
  shows "length k = 11"
proof -
  from keys_entries[OF assms] obtain m v where
    m: "m \<in> set (scan SSN_RE s)" and c: "uniqueCand m = Some (k, v)" by blast
  from scan_matchAt[OF m] obtain j where j: "matchAt SSN_RE s j = Some m" by blast
  have ic: "ignoreCase SSN_RE = False" by (simp add: SSN_RE_def)
  have "m0 m \<in> words 11 ssnChar"
    by (rule matchAt_lang[OF _ j], unfold ic, rule ssn_match_words)
  then have l: "length (m0 m) = 11" and "list_all ssnChar (m0 m)" by (simp_all add: words_def)
  then have "list_all (\<lambda>c. \<not> isSpace c) (m0 m)"
    by (auto simp: list_all_iff ssnChar_not_space)
  then have "trim (m0 m) = m0 m" by (rule trim_no_space)
  with uniqueCand_Some[OF c] l show ?thesis by (simp add: toLowerCase_def)
qed

lemma last4_key_length:
  assumes "k \<in> fst ` set (entries last4Cand re s)"
  shows "length k = 4"
proof -
  from keys_entries[OF assms] obtain m v where "last4Cand m = Some (k, v)" by blast
  from last4Cand_Some[OF this] have "k = v" "length v = 4" by blast+
  then show ?thesis by simp
qed

lemma iban_key_hd:
  assumes "k \<in> fst ` set (entries ibanCand re s)"
  shows "k \<noteq> [] \<and> isUpperAZ (hd k)"
proof -
  from keys_entries[OF assms] obtain m v where "ibanCand m = Some (k, v)" by blast
  from ibanCand_Some[OF this] have "isValidIban k" by blast
  then show ?thesis using isValidIban_shape ibanShape_hd by blast
qed

lemma routing_key_hd:
  assumes "k \<in> fst ` set (entries routingCand re s)"
  shows "hd k = CHR ''r''"
proof -
  from keys_entries[OF assms] obtain m v where "routingCand m = Some (k, v)" by blast
  from routingCand_Some[OF this] have "\<exists>x. k = ''routing:'' @ x" by blast
  then show ?thesis by auto
qed

lemma account_key_hd:
  assumes "k \<in> fst ` set (entries accountCand re s)"
  shows "hd k = CHR ''a''"
proof -
  from keys_entries[OF assms] obtain m v where "accountCand m = Some (k, v)" by blast
  from accountCand_Some[OF this] have "\<exists>x. k = ''account:'' @ x" by blast
  then show ?thesis by auto
qed

lemma sort_key_hd:
  assumes "k \<in> fst ` set (entries sortCand re s)"
  shows "hd k = CHR ''s''"
proof -
  from keys_entries[OF assms] obtain m v where "sortCand m = Some (k, v)" by blast
  from sortCand_Some[OF this] have "\<exists>x. k = ''sort:'' @ x" by blast
  then show ?thesis by auto
qed


section \<open>Keys\<close>

lemma distinct_by_type:
  assumes "\<And>t. distinct (map (\<lambda>e. fst (snd e)) (filter (\<lambda>e. fst e = t) xs))"
  shows "distinct (map (\<lambda>e. (fst e, fst (snd e))) xs)"
  using assms
proof (induction xs)
  case Nil
  show ?case by simp
next
  case (Cons x xs)
  have "distinct (map (\<lambda>e. fst (snd e)) (filter (\<lambda>e. fst e = t) xs))" for t
    using Cons.prems[of t] by (simp split: if_splits)
  then have d: "distinct (map (\<lambda>e. (fst e, fst (snd e))) xs)" by (rule Cons.IH)
  have "(fst x, fst (snd x)) \<notin> (\<lambda>e. (fst e, fst (snd e))) ` set xs"
  proof
    assume "(fst x, fst (snd x)) \<in> (\<lambda>e. (fst e, fst (snd e))) ` set xs"
    then obtain y where y: "y \<in> set xs" "fst y = fst x" "fst (snd y) = fst (snd x)" by auto
    then have "y \<in> set (filter (\<lambda>e. fst e = fst x) xs)" by simp
    then have "fst (snd y) \<in> (\<lambda>e. fst (snd e)) ` set (filter (\<lambda>e. fst e = fst x) xs)"
      by (rule imageI)
    with y have "fst (snd x) \<in> set (map (\<lambda>e. fst (snd e)) (filter (\<lambda>e. fst e = fst x) xs))"
      by simp
    with Cons.prems[of "fst x"] show False by simp
  qed
  with d show ?case by simp
qed

lemma filter_keyed:
  "filter (\<lambda>e. fst e = t) (keyed t' es) = (if t' = t then keyed t' es else [])"
  by (induction es) (auto simp: keyed_def)

lemma keys_keyed: "map (\<lambda>e. fst (snd e)) (keyed t es) = map fst es"
  by (simp add: keyed_def)

lemma matches_keyed: "map (\<lambda>e. \<lparr>ty = fst e, val = snd (snd e)\<rparr>) (keyed t es) = tagged t (map snd es)"
  by (simp add: keyed_def tagged_def)

lemma tagged_append: "tagged t (xs @ ys) = tagged t xs @ tagged t ys"
  by (simp add: tagged_def)

lemma distinct_entries: "distinct (map fst (entries cand re s))"
  by (simp add: entries_def distinct_firstByKey)

lemma ssn_keys_disjoint:
  "set (map fst (entries uniqueCand SSN_RE s)) \<inter> set (map fst (entries last4Cand re s)) = {}"
proof -
  have False if a: "k \<in> fst ` set (entries uniqueCand SSN_RE s)"
    and b: "k \<in> fst ` set (entries last4Cand re s)" for k
    using ssn_key_length[OF a] last4_key_length[OF b] by simp
  then show ?thesis by auto
qed

lemma bank_keys_disjoint:
  "set (map fst (entries ibanCand r1 s)) \<inter> set (map fst (entries routingCand r2 s)) = {}"
  "set (map fst (entries ibanCand r1 s)) \<inter> set (map fst (entries accountCand r3 s)) = {}"
  "set (map fst (entries ibanCand r1 s)) \<inter> set (map fst (entries sortCand r4 s)) = {}"
  "set (map fst (entries routingCand r2 s)) \<inter> set (map fst (entries accountCand r3 s)) = {}"
  "set (map fst (entries routingCand r2 s)) \<inter> set (map fst (entries sortCand r4 s)) = {}"
  "set (map fst (entries accountCand r3 s)) \<inter> set (map fst (entries sortCand r4 s)) = {}"
proof -
  have 1: False if "k \<in> fst ` set (entries ibanCand r1 s)" "k \<in> fst ` set (entries routingCand r2 s)" for k
    using iban_key_hd[OF that(1)] routing_key_hd[OF that(2)] not_upper_ras by simp
  have 2: False if "k \<in> fst ` set (entries ibanCand r1 s)" "k \<in> fst ` set (entries accountCand r3 s)" for k
    using iban_key_hd[OF that(1)] account_key_hd[OF that(2)] not_upper_ras by simp
  have 3: False if "k \<in> fst ` set (entries ibanCand r1 s)" "k \<in> fst ` set (entries sortCand r4 s)" for k
    using iban_key_hd[OF that(1)] sort_key_hd[OF that(2)] not_upper_ras by simp
  have 4: False if "k \<in> fst ` set (entries routingCand r2 s)" "k \<in> fst ` set (entries accountCand r3 s)" for k
    using routing_key_hd[OF that(1)] account_key_hd[OF that(2)] by simp
  have 5: False if "k \<in> fst ` set (entries routingCand r2 s)" "k \<in> fst ` set (entries sortCand r4 s)" for k
    using routing_key_hd[OF that(1)] sort_key_hd[OF that(2)] by simp
  have 6: False if "k \<in> fst ` set (entries accountCand r3 s)" "k \<in> fst ` set (entries sortCand r4 s)" for k
    using account_key_hd[OF that(1)] sort_key_hd[OF that(2)] by simp
  show "set (map fst (entries ibanCand r1 s)) \<inter> set (map fst (entries routingCand r2 s)) = {}"
    using 1 by auto
  show "set (map fst (entries ibanCand r1 s)) \<inter> set (map fst (entries accountCand r3 s)) = {}"
    using 2 by auto
  show "set (map fst (entries ibanCand r1 s)) \<inter> set (map fst (entries sortCand r4 s)) = {}"
    using 3 by auto
  show "set (map fst (entries routingCand r2 s)) \<inter> set (map fst (entries accountCand r3 s)) = {}"
    using 4 by auto
  show "set (map fst (entries routingCand r2 s)) \<inter> set (map fst (entries sortCand r4 s)) = {}"
    using 5 by auto
  show "set (map fst (entries accountCand r3 s)) \<inter> set (map fst (entries sortCand r4 s)) = {}"
    using 6 by auto
qed

lemma distinct_keyedMatches:
  "distinct (map (\<lambda>e. (fst e, fst (snd e))) (keyedMatches s))"
proof (rule distinct_by_type)
  fix t
  show "distinct (map (\<lambda>e. fst (snd e)) (filter (\<lambda>e. fst e = t) (keyedMatches s)))"
    unfolding keyedMatches_def filter_append filter_keyed
    by (cases t)
       (simp_all add: keys_keyed distinct_entries ssn_keys_disjoint bank_keys_disjoint
          Int_Un_distrib del: set_map map_map)
qed

lemma unique_normalizedKey:
  assumes "e \<in> set (entries uniqueCand re s)" and "t \<noteq> Card" and "t \<noteq> Bank"
  shows "normalizedKey t (fst e) (snd e)"
proof -
  from set_entries[OF assms(1)] obtain m where "uniqueCand m = Some (fst e, snd e)" by auto
  from uniqueCand_Some[OF this] have "snd e = trim (m0 m)" "fst e = toLowerCase (snd e)" by blast+
  then have "fst e = toLowerCase (trim (snd e))" by (metis trim_idem)
  with assms(2,3) show ?thesis by (cases t) (simp_all add: normalizedKey_def)
qed

lemma last4_normalizedKey:
  assumes "e \<in> set (entries last4Cand re s)"
  shows "normalizedKey Ssn (fst e) (snd e)"
proof -
  from set_entries[OF assms(1)] obtain m where "last4Cand m = Some (fst e, snd e)" by auto
  from last4Cand_Some[OF this] have "fst e = snd e" "list_all isDigit (snd e)" by blast+
  then show ?thesis by (simp add: normalizedKey_def trim_digits toLowerCase_digits)
qed

lemma card_normalizedKey:
  assumes "e \<in> set (entries (cardCand s') re s)"
  shows "normalizedKey Card (fst e) (snd e)"
proof -
  from set_entries[OF assms(1)] obtain m where "cardCand s' m = Some (fst e, snd e)" by auto
  from cardCand_Some[OF this] have "fst e = digitsOnly (snd e)" by blast
  then show ?thesis by (simp add: normalizedKey_def)
qed

lemma iban_normalizedKey:
  assumes "e \<in> set (entries ibanCand re s)"
  shows "normalizedKey Bank (fst e) (snd e)"
proof -
  from set_entries[OF assms(1)] obtain m where "ibanCand m = Some (fst e, snd e)" by auto
  from ibanCand_Some[OF this] have "fst e = toUpperCase (stripSpaces (snd e))" by blast
  then show ?thesis by (simp add: normalizedKey_def)
qed

lemma routing_normalizedKey:
  assumes "e \<in> set (entries routingCand re s)"
  shows "normalizedKey Bank (fst e) (snd e)"
proof -
  from set_entries[OF assms(1)] obtain m where "routingCand m = Some (fst e, snd e)" by auto
  from routingCand_Some[OF this] have "fst e = ''routing:'' @ snd e" by blast
  then show ?thesis by (simp add: normalizedKey_def)
qed

lemma account_normalizedKey:
  assumes "e \<in> set (entries accountCand re s)"
  shows "normalizedKey Bank (fst e) (snd e)"
proof -
  from set_entries[OF assms(1)] obtain m where "accountCand m = Some (fst e, snd e)" by auto
  from accountCand_Some[OF this] have "fst e = ''account:'' @ snd e" by blast
  then show ?thesis by (simp add: normalizedKey_def)
qed

lemma sort_normalizedKey:
  assumes "e \<in> set (entries sortCand re s)"
  shows "normalizedKey Bank (fst e) (snd e)"
proof -
  from set_entries[OF assms(1)] obtain m where "sortCand m = Some (fst e, snd e)" by auto
  from sortCand_Some[OF this] have "fst e = ''sort:'' @ digitsOnly (snd e)" by blast
  then show ?thesis by (simp add: normalizedKey_def)
qed

lemma set_keyed: "x \<in> set (keyed t es) \<longleftrightarrow> (\<exists>e\<in>set es. x = (t, fst e, snd e))"
  by (auto simp: keyed_def)

lemma keyedMatches_normalizedKey:
  "x \<in> set (keyedMatches s) \<Longrightarrow> normalizedKey (fst x) (fst (snd x)) (snd (snd x))"
  unfolding keyedMatches_def set_append Un_iff set_keyed
  by (elim disjE bexE)
     (simp_all add: unique_normalizedKey last4_normalizedKey card_normalizedKey iban_normalizedKey
        routing_normalizedKey account_normalizedKey sort_normalizedKey)

lemma findSensitiveMatches_keyed:
  "findSensitiveMatches s = Some (map (\<lambda>e. \<lparr>ty = fst e, val = snd (snd e)\<rparr>) (keyedMatches s))"
  unfolding findSensitiveMatches_eq keyedMatches_def map_append matches_keyed tagged_append
  by simp

section \<open>Capture groups\<close>

lemma code_char_of: "0 \<le> n \<Longrightarrow> n < 256 \<Longrightarrow> code (char_of n) = n"
  by (simp add: code_def)

lemma code_upperChar:
  "code (upperChar c) = (if (97 \<le> code c \<and> code c \<le> 122) \<or> (224 \<le> code c \<and> code c \<le> 254 \<and> code c \<noteq> 247)
     then code c - 32 else code c)"
  by (auto simp: upperChar_def code_char_of)

lemma code_lowerChar:
  "code (lowerChar c) = (if (65 \<le> code c \<and> code c \<le> 90) \<or> (192 \<le> code c \<and> code c \<le> 222 \<and> code c \<noteq> 215)
     then code c + 32 else code c)"
  by (auto simp: lowerChar_def code_char_of)

lemma isDigit_upperChar [simp]: "isDigit (upperChar c) = isDigit c"
  by (auto simp: isDigit_def code_upperChar)

lemma isDigit_lowerChar [simp]: "isDigit (lowerChar c) = isDigit c"
  by (auto simp: isDigit_def code_lowerChar)

lemma inClass_digit_ic [simp]: "inClass ic [Digit] = isDigit"
  by (rule ext) (simp add: inClass_def inItems_def)

lemma matchR_Group:
  assumes s: "simple g" and m: "st' \<in> set (matchR ic (Group g) st)"
  shows "\<exists>w\<in>lang ic g. cap st' = Some w"
proof -
  from m obtain x where x: "x \<in> set (matchR ic g st)"
    and st': "st' = x\<lparr>cap := Some (take (length (rest st) - length (rest x)) (rest st))\<rparr>"
    by auto
  from x have "x \<in> steps (lang ic g) st" by (simp add: matchR_lang[OF s])
  then obtain w t where w: "w \<in> lang ic g" and r: "rest st = w @ t" and a: "x = adv st w"
    by (auto simp: steps_def)
  from r a have "rest x = t" by (simp add: rest_adv)
  with r have "take (length (rest st) - length (rest x)) (rest st) = w" by simp
  with st' w show ?thesis by auto
qed

lemma finalGroup_Some: "finalGroup r X = Some g \<Longrightarrow> r = Group g \<and> X = Seq WordB Eps"
  by (auto simp: finalGroup_def split: regex.splits if_splits)

lemma matchR_captureOf:
  "captureOf r = Some g \<Longrightarrow> simple g \<Longrightarrow> st' \<in> set (matchR ic r st) \<Longrightarrow>
     \<exists>w\<in>lang ic g. cap st' = Some w"
proof (induction r arbitrary: st rule: captureOf.induct)
  case (1 r X)
  from "1.prems"(3) obtain x where x: "x \<in> set (matchR ic r st)" and s: "st' \<in> set (matchR ic X x)"
    by auto
  show ?case
  proof (cases "finalGroup r X")
    case None
    with "1.prems"(1) have "captureOf X = Some g" by simp
    from "1.IH"[OF None this "1.prems"(2) s] show ?thesis .
  next
    case (Some g')
    with "1.prems"(1) have g: "g' = g" by simp
    from finalGroup_Some[OF Some] g have r: "r = Group g" and X: "X = Seq WordB Eps" by simp_all
    from s X have "st' = x" by (auto split: if_splits)
    with matchR_Group[OF "1.prems"(2) x[unfolded r]] show ?thesis by simp
  qed
qed simp_all

lemma scan_group1:
  assumes m: "m \<in> set (scan re s)" and c: "captureOf (pattern re) = Some g" and g: "simple g"
  shows "group1 m \<in> lang (ignoreCase re) g"
proof -
  from scan_matchAt[OF m] obtain j where "matchAt re s j = Some m" by blast
  from matchAt_consumes[OF this] obtain st' where
    st': "st' \<in> set (matchR (ignoreCase re) (pattern re) (startState s j))" and "m1 m = cap st'"
    by blast
  with matchR_captureOf[OF c g st'] show ?thesis by (auto simp: group1_def)
qed

lemma captureOf_patterns:
  "captureOf (pattern SSN_LAST4_CONTEXT_RE) = Some (rTimes 4 dig)"
  "captureOf (pattern ROUTING_RE) = Some (rTimes 9 dig)"
  "captureOf (pattern ACCOUNT_RE) = Some (rRange 6 17 dig)"
  "captureOf (pattern SORT_CODE_RE) =
     Some (seqs [rTimes 2 dig, rOpt (Cls [Ch CHR ''-'', Ch CHR '' '']),
                 rTimes 2 dig, rOpt (Cls [Ch CHR ''-'', Ch CHR '' '']), rTimes 2 dig])"
  by code_simp+

lemma last4_group:
  assumes "m \<in> set (scan SSN_LAST4_CONTEXT_RE s)"
  shows "length (group1 m) = 4 \<and> list_all isDigit (group1 m)"
proof -
  have "group1 m \<in> lang (ignoreCase SSN_LAST4_CONTEXT_RE) (rTimes 4 dig)"
    by (rule scan_group1[OF assms captureOf_patterns(1)]) (simp add: dig_def)
  then show ?thesis by (simp add: dig_def lang_rTimes_Cls)
qed

lemma last4Cand_scan:
  assumes "m \<in> set (scan SSN_LAST4_CONTEXT_RE s)"
  shows "last4Cand m =
     (if 1900 \<le> Number (group1 m) \<and> Number (group1 m) \<le> 2099 then None
      else Some (group1 m, group1 m))"
proof -
  from last4_group[OF assms] have l: "length (group1 m) = 4" and d: "list_all isDigit (group1 m)"
    by simp_all
  from d have "trim (group1 m) = group1 m" by (rule trim_digits)
  with l d show ?thesis by (simp add: last4Cand_def test_LAST4 Let_def)
qed

lemma char_eq_code: "c = c' \<longleftrightarrow> code c = code c'"
  by (simp add: code_inj)

lemma inClass_dash_space:
  "inClass ic [Ch CHR ''-'', Ch CHR '' ''] = (\<lambda>c. c = CHR ''-'' \<or> c = CHR '' '')"
proof
  fix c
  have v: "code CHR ''-'' = 45" "code CHR '' '' = 32" by (simp_all add: code_def)
  show "inClass ic [Ch CHR ''-'', Ch CHR '' ''] c = (c = CHR ''-'' \<or> c = CHR '' '')"
    unfolding inClass_def inItems_def
    by (auto simp: char_eq_code v code_upperChar code_lowerChar split: if_splits)
qed

lemma lang_rOpt_Cls:
  "lang ic (rOpt (Cls its)) = {w. length w \<le> 1 \<and> list_all (inClass ic its) w}"
  unfolding rOpt_def lang_Rep_Cls by (auto simp: inMax_def)

lemma optSep_iff: "optSep w \<longleftrightarrow> length w \<le> 1 \<and> list_all (\<lambda>c. c = CHR ''-'' \<or> c = CHR '' '') w"
proof (cases w)
  case Nil
  then show ?thesis by (simp add: optSep_def)
next
  case (Cons c cs)
  then show ?thesis by (cases cs) (auto simp: optSep_def)
qed

lemma lang_sort_group:
  "lang ic (seqs [rTimes 2 dig, rOpt (Cls [Ch CHR ''-'', Ch CHR '' '']),
                 rTimes 2 dig, rOpt (Cls [Ch CHR ''-'', Ch CHR '' '']), rTimes 2 dig])
   = {v. sortCodeText v}"
proof -
  have D: "lang ic (rTimes 2 dig) = {w. twoDigits w}"
    by (simp add: dig_def lang_rTimes_Cls twoDigits_def)
  have O: "lang ic (rOpt (Cls [Ch CHR ''-'', Ch CHR '' ''])) = {w. optSep w}"
    unfolding lang_rOpt_Cls optSep_iff by (simp add: inClass_dash_space)
  have "cat {w. twoDigits w} (cat {w. optSep w} (cat {w. twoDigits w}
          (cat {w. optSep w} {w. twoDigits w}))) = {v. sortCodeText v}"
  proof (intro set_eqI iffI)
    fix v assume "v \<in> cat {w. twoDigits w} (cat {w. optSep w} (cat {w. twoDigits w}
          (cat {w. optSep w} {w. twoDigits w})))"
    then show "v \<in> {v. sortCodeText v}"
      unfolding cat_def sortCodeText_def by blast
  next
    fix v assume "v \<in> {v. sortCodeText v}"
    then obtain a s1 b s2 c where v: "v = a @ s1 @ b @ s2 @ c"
      and a: "twoDigits a" and s1: "optSep s1" and b: "twoDigits b" and s2: "optSep s2"
      and c: "twoDigits c"
      unfolding sortCodeText_def by blast
    from s2 c have "s2 @ c \<in> cat {w. optSep w} {w. twoDigits w}"
      unfolding cat_def by blast
    with b have "b @ s2 @ c \<in> cat {w. twoDigits w} (cat {w. optSep w} {w. twoDigits w})"
      unfolding cat_def by blast
    with s1 have "s1 @ b @ s2 @ c \<in> cat {w. optSep w} (cat {w. twoDigits w}
          (cat {w. optSep w} {w. twoDigits w}))"
      unfolding cat_def by blast
    with a v show "v \<in> cat {w. twoDigits w} (cat {w. optSep w} (cat {w. twoDigits w}
          (cat {w. optSep w} {w. twoDigits w})))"
      unfolding cat_def by blast
  qed
  then show ?thesis
    unfolding seqs.simps lang.simps(4) lang.simps(1) D O cat_eps .
qed

lemma twoDigits_props:
  "twoDigits w \<Longrightarrow> w \<noteq> [] \<and> isDigit (hd w) \<and> isDigit (last w) \<and> digitsOnly w = w"
  by (cases w) (auto simp: twoDigits_def digitsOnly_def list_all_iff filter_id_conv)

lemma optSep_digits: "optSep w \<Longrightarrow> digitsOnly w = []"
  by (auto simp: optSep_def digitsOnly_def isDigit_def code_def)

lemma digitsOnly_append [simp]: "digitsOnly (a @ b) = digitsOnly a @ digitsOnly b"
  by (simp add: digitsOnly_def)

lemma sortCodeText_props:
  assumes "sortCodeText v"
  shows "trim v = v" and "length (digitsOnly v) = 6" and "list_all isDigit (digitsOnly v)"
proof -
  from assms obtain a s1 b s2 c where v: "v = a @ s1 @ b @ s2 @ c"
    and a: "twoDigits a" and s1: "optSep s1" and b: "twoDigits b" and s2: "optSep s2"
    and c: "twoDigits c"
    unfolding sortCodeText_def by blast
  from twoDigits_props[OF a] twoDigits_props[OF c] v
  have "v \<noteq> []" "isDigit (hd v)" "isDigit (last v)" by simp_all
  then show "trim v = v" by (simp add: trim_id digit_not_space)
  have "digitsOnly v = a @ b @ c"
    using twoDigits_props[OF a] twoDigits_props[OF b] twoDigits_props[OF c]
      optSep_digits[OF s1] optSep_digits[OF s2] by (simp add: v)
  with a b c show "length (digitsOnly v) = 6"
    by (simp add: twoDigits_def)
  show "list_all isDigit (digitsOnly v)" by (simp add: digitsOnly_def list_all_iff)
qed

lemma sort_group:
  assumes "m \<in> set (scan SORT_CODE_RE s)"
  shows "sortCodeText (group1 m)"
proof -
  have "group1 m \<in> lang (ignoreCase SORT_CODE_RE)
      (seqs [rTimes 2 dig, rOpt (Cls [Ch CHR ''-'', Ch CHR '' '']),
             rTimes 2 dig, rOpt (Cls [Ch CHR ''-'', Ch CHR '' '']), rTimes 2 dig])"
    by (rule scan_group1[OF assms captureOf_patterns(4)])
       (simp add: dig_def rOpt_def inMax_def)
  then show ?thesis unfolding lang_sort_group by simp
qed

lemma sortCand_scan:
  assumes "m \<in> set (scan SORT_CODE_RE s)"
  shows "sortCand m = Some (''sort:'' @ digitsOnly (group1 m), group1 m)"
  using sortCodeText_props[OF sort_group[OF assms]]
  by (simp add: sortCand_def Let_def)

section \<open>The Luhn checksum\<close>

lemma luhnDigit_parity: "luhnDigit (Suc i + of_bool sd) d = luhnDigit (i + of_bool (\<not> sd)) d"
  by (cases sd) (simp_all add: luhnDigit_def)

lemma luhnLoop_sum:
  "list_all isDigit cs \<Longrightarrow>
   luhnLoop cs sm sd = Some (sm + (\<Sum>i<length cs. luhnDigit (i + of_bool sd) (code (cs ! i) - 48)))"
proof (induction cs arbitrary: sm sd)
  case Nil
  show ?case by simp
next
  case (Cons c cs)
  then have "isDigit c" and cs: "list_all isDigit cs" by simp_all
  then have c: "\<not> (code c - 48 < 0 \<or> code c - 48 > 9)" using isDigit_iff by blast
  have step: "luhnLoop (c # cs) sm sd = luhnLoop cs (sm + luhnDigit (of_bool sd) (code c - 48)) (\<not> sd)"
    using c by (cases sd) (simp_all add: Let_def luhnDigit_def)
  have "(\<Sum>i<length (c # cs). luhnDigit (i + of_bool sd) (code ((c # cs) ! i) - 48)) =
        luhnDigit (of_bool sd) (code c - 48) +
        (\<Sum>i<length cs. luhnDigit (Suc i + of_bool sd) (code (cs ! i) - 48))"
    unfolding length_Cons sum.lessThan_Suc_shift by simp
  also have "\<dots> = luhnDigit (of_bool sd) (code c - 48) +
        (\<Sum>i<length cs. luhnDigit (i + of_bool (\<not> sd)) (code (cs ! i) - 48))"
    by (simp only: luhnDigit_parity)
  finally show ?case
    unfolding step Cons.IH[OF cs] by simp
qed

lemma luhnCheck_spec: "list_all isDigit s \<Longrightarrow> luhnCheck s = luhnSpec s"
proof -
  assume "list_all isDigit s"
  then have "list_all isDigit (rev s)" by (simp add: list_all_iff)
  from luhnLoop_sum[OF this, of 0 False] show ?thesis
    by (simp add: luhnCheck_def luhnSpec_def)
qed

section \<open>Card candidates\<close>

lemma digitsOnly_rev: "digitsOnly (rev s) = rev (digitsOnly s)"
  by (simp add: digitsOnly_def rev_filter)

lemma digitsOnly_dropWhile: "digitsOnly (dropWhile isSpace s) = digitsOnly s"
proof -
  have "digitsOnly (takeWhile isSpace s) = []"
    unfolding digitsOnly_def filter_empty_conv
    using digit_not_space by (auto dest: set_takeWhileD)
  then have "digitsOnly (takeWhile isSpace s @ dropWhile isSpace s) = digitsOnly (dropWhile isSpace s)"
    by (simp only: digitsOnly_append) simp
  then show ?thesis by (simp only: takeWhile_dropWhile_id)
qed

lemma digitsOnly_trim: "digitsOnly (trim s) = digitsOnly s"
  by (simp add: trim_def digitsOnly_rev digitsOnly_dropWhile)

lemma list_all_digitsOnly: "list_all isDigit (digitsOnly s)"
  by (simp add: digitsOnly_def list_all_iff)


lemma cardSep_not_digit: "cardSep c \<Longrightarrow> \<not> isDigit c"
proof -
  have v: "code CHR '' '' = 32" "code CHR ''-'' = 45" by (simp_all add: code_def)
  assume "cardSep c"
  then have "code c = 32 \<or> code c = 45" unfolding cardSep_def using v by auto
  then show ?thesis by (auto simp: isDigit_def)
qed

lemma cardSep_digits: "list_all cardSep w \<Longrightarrow> digitsOnly w = []"
  unfolding digitsOnly_def filter_empty_conv list_all_iff using cardSep_not_digit by blast

lemma pw_card_digits:
  assumes B: "\<And>u. u \<in> B \<Longrightarrow> length (digitsOnly u) = 1"
  shows "w \<in> pw B n \<Longrightarrow> length (digitsOnly w) = n"
proof (induction n arbitrary: w)
  case 0
  then show ?case by simp
next
  case (Suc n)
  then obtain u v where u: "u \<in> B" and v: "v \<in> pw B n" and w: "w = u @ v"
    by (auto simp: cat_def)
  have "length (digitsOnly w) = length (digitsOnly u) + length (digitsOnly v)"
    unfolding w by simp
  also have "\<dots> = 1 + n"
    unfolding B[OF u] Suc.IH[OF v] ..
  finally show ?case by simp
qed

lemma matchR_sub_NotBehind:
  assumes "\<And>st. set (matchR ic X st) \<subseteq> steps L st"
  shows "set (matchR ic (Seq (NotBehind its) X) st) \<subseteq> steps L st"
proof (cases "prev st")
  case None
  then show ?thesis using assms[of st] by simp
next
  case (Some c)
  then show ?thesis using assms[of st] by simp
qed

lemma matchR_NotAhead_end: "set (matchR ic (Seq (NotAhead its) Eps) x) \<subseteq> {x}"
  by (cases "rest x") simp_all

lemma matchR_simple_NotAhead:
  assumes "simple r"
  shows "set (matchR ic (Seq r (Seq (NotAhead its) Eps)) st) \<subseteq> steps (lang ic r) st"
proof
  fix y assume "y \<in> set (matchR ic (Seq r (Seq (NotAhead its) Eps)) st)"
  then obtain x where x: "x \<in> set (matchR ic r st)"
    and y: "y \<in> set (matchR ic (Seq (NotAhead its) Eps) x)"
    unfolding matchR.simps(4)[of ic r] by auto
  from y matchR_NotAhead_end[of ic its x] have "y = x" by blast
  with x show "y \<in> steps (lang ic r) st" by (simp add: matchR_lang[OF assms])
qed

lemma card_match_digits:
  assumes "matchAt CARD_CANDIDATE_RE s j = Some m"
  shows "13 \<le> length (digitsOnly (m0 m)) \<and> length (digitsOnly (m0 m)) \<le> 19"
proof -
  let ?body = "seqs [dig, rLazyStar (Cls [Ch CHR '' '', Ch CHR ''-''])]"
  let ?R = "rRange 13 19 ?body"
  have sR: "simple ?R"
    by (simp add: rRange_def dig_def rLazyStar_def inMax_def)
  have p: "pattern CARD_CANDIDATE_RE = Seq (NotBehind [Digit]) (Seq ?R (Seq (NotAhead [Digit]) Eps))"
    by (simp add: CARD_CANDIDATE_RE_def)
  have ic: "ignoreCase CARD_CANDIDATE_RE = False" by (simp add: CARD_CANDIDATE_RE_def)
  have sub: "set (matchR False (pattern CARD_CANDIDATE_RE) st) \<subseteq> steps (lang False ?R) st" for st
    unfolding p by (rule matchR_sub_NotBehind) (rule matchR_simple_NotAhead[OF sR])
  have "m0 m \<in> lang False ?R"
    by (rule matchAt_lang[OF _ assms], unfold ic, rule sub)
  then obtain n where n: "13 \<le> n" "n \<le> 19" and w: "m0 m \<in> pw (lang False ?body) n"
    unfolding rRange_def lang.simps(6) by (auto simp: inMax_def simp del: lang.simps seqs.simps)
  have "length (digitsOnly u) = 1" if "u \<in> lang False ?body" for u
  proof -
    from that have "u \<in> cat {[c] | c. isDigit c}
        {w. list_all (inClass False [Ch CHR '' '', Ch CHR ''-'']) w}"
      unfolding seqs.simps lang.simps(4) lang.simps(1) cat_eps dig_def rLazyStar_def lang_Rep_Cls
        lang.simps(2) inClass_digit_ic
      by (simp add: inMax_def)
    then obtain c sp where "u = c # sp" "isDigit c"
      "list_all (inClass False [Ch CHR '' '', Ch CHR ''-'']) sp"
      unfolding cat_def by auto
    moreover from this have "list_all cardSep sp"
      by (simp add: list_all_iff inClass_def inItems_def cardSep_def)
    ultimately show ?thesis
      using cardSep_digits[of sp] by (simp add: digitsOnly_def)
  qed
  from pw_card_digits[OF this w] n show ?thesis by simp
qed


section \<open>Whole words\<close>

lemma startState_append:
  "startState (pre @ u) (length pre) =
     \<lparr>prev = (if pre = [] then None else Some (last pre)), rest = u, cap = None\<rparr>"
  by (cases "pre = []") (simp_all add: startState_def nth_append last_conv_nth)

lemma matchR_wordbounded:
  assumes s: "simple r"
  shows "set (matchR ic (Seq WordB (Seq r (Seq WordB Eps))) st) =
     {x \<in> steps (lang ic r) st.
        isWordOpt (prev st) \<noteq> isWordOpt (nextChar st) \<and> isWordOpt (prev x) \<noteq> isWordOpt (nextChar x)}"
proof -
  have e: "set (matchR ic (Seq WordB Eps) x) =
      (if isWordOpt (prev x) \<noteq> isWordOpt (nextChar x) then {x} else {})" for x
    by simp
  have "set (matchR ic (Seq r (Seq WordB Eps)) st) =
      {x \<in> steps (lang ic r) st. isWordOpt (prev x) \<noteq> isWordOpt (nextChar x)}"
    unfolding matchR.simps(4)[of ic r] set_concat set_map matchR_lang[OF s] image_image e
    by auto
  then show ?thesis
    unfolding matchR.simps(4)[of ic WordB] matchR.simps(8) by auto
qed

lemma test_wordbounded:
  assumes p: "pattern re = Seq WordB (Seq r (Seq WordB Eps))" and s: "simple r"
    and wordy: "\<And>w. w \<in> lang (ignoreCase re) r \<Longrightarrow> w \<noteq> [] \<and> isWordChar (hd w) \<and> isWordChar (last w)"
  shows "test re str \<longleftrightarrow> wholeWordIn (lang (ignoreCase re) r) str"
proof
  let ?L = "lang (ignoreCase re) r"
  assume "test re str"
  then obtain j x where j: "j \<le> length str" and x: "x \<in> steps ?L (startState str j)"
    and b1: "isWordOpt (prev (startState str j)) \<noteq> isWordOpt (nextChar (startState str j))"
    and b2: "isWordOpt (prev x) \<noteq> isWordOpt (nextChar x)"
    unfolding test_iff p matchR_wordbounded[OF s] by blast
  from x obtain w t where w: "w \<in> ?L" and r: "rest (startState str j) = w @ t"
    and a: "x = adv (startState str j) w"
    by (auto simp: steps_def)
  from wordy[OF w] have ne: "w \<noteq> []" and hw: "isWordChar (hd w)" and lw: "isWordChar (last w)"
    by simp_all
  let ?pre = "take j str"
  from r have d: "drop j str = w @ t" by (simp add: rest_startState)
  then have str: "str = ?pre @ w @ t" by (metis append_take_drop_id)
  from j have lp: "length ?pre = j" by simp
  have st: "startState str j = \<lparr>prev = (if ?pre = [] then None else Some (last ?pre)), rest = w @ t, cap = None\<rparr>"
    using startState_append[of ?pre "w @ t"] str lp by simp
  from ne hw have "isWordOpt (nextChar (startState str j))"
    unfolding st by (cases w) (simp_all add: nextChar_def isWordOpt_def)
  with b1 have "\<not> isWordOpt (prev (startState str j))" by simp
  then have c1: "?pre = [] \<or> \<not> isWordChar (last ?pre)"
    unfolding st by (auto simp: isWordOpt_def split: if_splits)
  from a ne lw r have "isWordOpt (prev x)" "rest x = t"
    by (simp_all add: adv_def isWordOpt_def)
  with b2 have c2: "t = [] \<or> \<not> isWordChar (hd t)"
    by (cases t) (simp_all add: nextChar_def isWordOpt_def)
  from str w c1 c2 show "wholeWordIn ?L str"
    unfolding wholeWordIn_def by blast
next
  let ?L = "lang (ignoreCase re) r"
  assume "wholeWordIn ?L str"
  then obtain pre w post where str: "str = pre @ w @ post" and w: "w \<in> ?L"
    and c1: "pre = [] \<or> \<not> isWordChar (last pre)" and c2: "post = [] \<or> \<not> isWordChar (hd post)"
    unfolding wholeWordIn_def by blast
  from wordy[OF w] have ne: "w \<noteq> []" and hw: "isWordChar (hd w)" and lw: "isWordChar (last w)"
    by simp_all
  let ?st = "startState str (length pre)"
  have st: "?st = \<lparr>prev = (if pre = [] then None else Some (last pre)), rest = w @ post, cap = None\<rparr>"
    unfolding str by (rule startState_append)
  let ?x = "adv ?st w"
  from w st have x: "?x \<in> steps ?L ?st" unfolding steps_def by auto
  from ne hw c1 have b1: "isWordOpt (prev ?st) \<noteq> isWordOpt (nextChar ?st)"
    unfolding st by (cases w) (auto simp: nextChar_def isWordOpt_def)
  from ne lw have "isWordOpt (prev ?x)" "rest ?x = post"
    unfolding st by (simp_all add: adv_def isWordOpt_def)
  with c2 have b2: "isWordOpt (prev ?x) \<noteq> isWordOpt (nextChar ?x)"
    by (cases post) (simp_all add: nextChar_def isWordOpt_def)
  have "length pre \<le> length str" unfolding str by simp
  with x b1 b2 show "test re str"
    unfolding test_iff p matchR_wordbounded[OF s] by blast
qed


section \<open>The keywords of the card context\<close>

lemma inClass_space [simp]: "inClass False [Space] = isSpace"
  by (rule ext) (simp add: inClass_def inItems_def)

lemma lang_rStar_ws: "lang False (rStar ws) = {w. list_all isSpace w}"
  unfolding rStar_def ws_def lang_Rep_Cls by (simp add: inMax_def)

lemma lang_spaced: "lang False (Seq (lit a) (Seq (rStar ws) (Seq (lit b) Eps))) = spaced a b"
  unfolding lang.simps(4) lang.simps(1) cat_eps lang_lit lang_rStar_ws
  by (auto simp: cat_def spaced_def)

lemma simple_rStar_ws [simp]: "simple (rStar ws)"
  by (simp add: rStar_def ws_def inMax_def)

lemma spaced_wordy:
  assumes "w \<in> spaced a b" and "a \<noteq> []" and "b \<noteq> []"
    and "isWordChar (hd a)" and "isWordChar (last b)"
  shows "w \<noteq> [] \<and> isWordChar (hd w) \<and> isWordChar (last w)"
  using assms by (auto simp: spaced_def)

lemma letters_wordy:
  "isWordChar CHR ''c''" "isWordChar CHR ''d''" "isWordChar CHR ''r''" "isWordChar CHR ''a''"
  "isWordChar CHR ''s''" "isWordChar CHR ''v''" "isWordChar CHR ''m''" "isWordChar CHR ''x''"
  by (simp_all add: isWordChar_def code_def)

lemma keywordForms_wordy:
  assumes "w \<in> keywordForms"
  shows "w \<noteq> [] \<and> isWordChar (hd w) \<and> isWordChar (last w)"
proof -
  from assms consider
      "w \<in> spaced ''credit'' ''card''" | "w \<in> spaced ''debit'' ''card''"
    | "w \<in> spaced ''card'' ''number''" | "w = ''visa''" | "w = ''mastercard''" | "w = ''amex''"
    | "w \<in> spaced ''american'' ''express''"
    unfolding keywordForms_def by blast
  then show ?thesis
  proof cases
    case 1
    then show ?thesis by (rule spaced_wordy) (simp_all add: letters_wordy)
  next
    case 2
    then show ?thesis by (rule spaced_wordy) (simp_all add: letters_wordy)
  next
    case 3
    then show ?thesis by (rule spaced_wordy) (simp_all add: letters_wordy)
  next
    case 4
    then show ?thesis by (simp add: letters_wordy)
  next
    case 5
    then show ?thesis by (simp add: letters_wordy)
  next
    case 6
    then show ?thesis by (simp add: letters_wordy)
  next
    case 7
    then show ?thesis by (rule spaced_wordy) (simp_all add: letters_wordy)
  qed
qed


lemma pattern_CARD_KEYWORD:
  "pattern CARD_KEYWORD_RE = Seq WordB (Seq cardKeywordAlts (Seq WordB Eps))"
  unfolding CARD_KEYWORD_RE_def cardKeywordAlts_def by (simp del: lit.simps)

lemma lang_cardKeywordAlts: "lang False cardKeywordAlts = keywordForms"
  unfolding cardKeywordAlts_def lang.simps(5) lang_spaced lang_lit keywordForms_def
  by auto

lemma simple_cardKeywordAlts: "simple cardKeywordAlts"
  unfolding cardKeywordAlts_def by (simp del: lit.simps)

lemma test_CARD_KEYWORD: "test CARD_KEYWORD_RE ctx \<longleftrightarrow> wholeWordIn keywordForms ctx"
proof -
  have ic: "ignoreCase CARD_KEYWORD_RE = False" by (simp add: CARD_KEYWORD_RE_def)
  have "test CARD_KEYWORD_RE ctx \<longleftrightarrow>
      wholeWordIn (lang (ignoreCase CARD_KEYWORD_RE) cardKeywordAlts) ctx"
    by (rule test_wordbounded[OF pattern_CARD_KEYWORD simple_cardKeywordAlts])
       (simp add: ic lang_cardKeywordAlts keywordForms_wordy)
  then show ?thesis by (simp add: ic lang_cardKeywordAlts)
qed

lemma cardCand_scan:
  assumes "m \<in> set (scan CARD_CANDIDATE_RE s)"
  shows "13 \<le> length (digitsOnly (trim (m0 m)))" and "length (digitsOnly (trim (m0 m))) \<le> 19"
    and "(\<exists>e. cardCand s m = Some e) \<longleftrightarrow>
      luhnSpec (digitsOnly (trim (m0 m))) \<or>
      wholeWordIn keywordForms (cardContext s (index m) (trim (m0 m)))"
proof -
  from scan_matchAt[OF assms] obtain j where "matchAt CARD_CANDIDATE_RE s j = Some m" by blast
  from card_match_digits[OF this]
  show l: "13 \<le> length (digitsOnly (trim (m0 m)))" "length (digitsOnly (trim (m0 m))) \<le> 19"
    by (simp_all add: digitsOnly_trim)
  have "luhnCheck (digitsOnly (trim (m0 m))) = luhnSpec (digitsOnly (trim (m0 m)))"
    by (rule luhnCheck_spec) (rule list_all_digitsOnly)
  with l show "(\<exists>e. cardCand s m = Some e) \<longleftrightarrow>
      luhnSpec (digitsOnly (trim (m0 m))) \<or>
      wholeWordIn keywordForms (cardContext s (index m) (trim (m0 m)))"
    by (auto simp: cardCand_def Let_def test_CARD_KEYWORD)
qed

section \<open>The calls of the Luhn check\<close>

lemma findCreditCardsLogged_fst:
  "fst (findCreditCardsLogged s ms u calls) = findCreditCardsLoop s ms u"
  by (induction ms arbitrary: u calls) (simp_all add: Let_def luhnCheckLogged_def)

lemma findCreditCardsLogged_snd:
  "snd (findCreditCardsLogged s ms u calls) =
     calls @ map (\<lambda>m. digitsOnly (trim (m0 m)))
       (filter (\<lambda>m. 13 \<le> length (digitsOnly (trim (m0 m))) \<and>
                     length (digitsOnly (trim (m0 m))) \<le> 19) ms)"
  by (induction ms arbitrary: u calls) (auto simp: Let_def luhnCheckLogged_def)

lemma card_scan_all_checked:
  "filter (\<lambda>m. 13 \<le> length (digitsOnly (trim (m0 m))) \<and>
                length (digitsOnly (trim (m0 m))) \<le> 19) (scan CARD_CANDIDATE_RE s) =
   scan CARD_CANDIDATE_RE s"
proof -
  have "13 \<le> length (digitsOnly (trim (m0 m))) \<and> length (digitsOnly (trim (m0 m))) \<le> 19"
    if "m \<in> set (scan CARD_CANDIDATE_RE s)" for m
  proof -
    from scan_matchAt[OF that] obtain j where "matchAt CARD_CANDIDATE_RE s j = Some m" by blast
    from card_match_digits[OF this] show ?thesis by (simp add: digitsOnly_trim)
  qed
  then show ?thesis by (simp add: filter_id_conv)
qed

lemma findCreditCards_logged:
  "findCreditCards s =
     Some (mapValues (fst (findCreditCardsLogged s (scan CARD_CANDIDATE_RE s) [] [])))"
  by (simp add: findCreditCards_def execAll_scan minLen_patterns findCreditCardsLogged_fst)

lemma logged_call_digits:
  assumes "ds \<in> set (snd (findCreditCardsLogged s ms u []))"
  shows "list_all isDigit ds" and "13 \<le> length ds" and "length ds \<le> 19"
    and "luhnLoop (rev ds) 0 False \<noteq> None"
proof -
  from assms have a: "list_all isDigit ds \<and> 13 \<le> length ds \<and> length ds \<le> 19"
    unfolding findCreditCardsLogged_snd by (auto simp: list_all_digitsOnly)
  then show d: "list_all isDigit ds" by blast
  from a show "13 \<le> length ds" and "length ds \<le> 19" by blast+
  from d have "list_all isDigit (rev ds)" by (simp add: list_all_iff)
  from luhnLoop_digits[OF this] show "luhnLoop (rev ds) 0 False \<noteq> None" by auto
qed

section \<open>Claims\<close>

text \<open>
  C9. On the input \<open>INS-44556677\<close> the result holds a match of type \<open>insurancePolicy\<close>
  with the value \<open>INS-44556677\<close>, on \<open>EMP-2024-5567\<close> a match of type \<open>employeeId\<close> with
  the value \<open>EMP-2024-5567\<close>, and on \<open>MRN- 998877\<close> a match of type
  \<open>medicalRecordNumber\<close>. In each case it is the only match.
\<close>

theorem prefix_identifier_examples:
  "findSensitiveMatches ''INS-44556677'' = Some [\<lparr>ty = InsurancePolicy, val = ''INS-44556677''\<rparr>] \<and>
   findSensitiveMatches ''EMP-2024-5567'' = Some [\<lparr>ty = EmployeeId, val = ''EMP-2024-5567''\<rparr>] \<and>
   findSensitiveMatches ''MRN- 998877'' = Some [\<lparr>ty = MedicalRecordNumber, val = ''MRN- 998877''\<rparr>]"
  by code_simp

text \<open>
  C10. \<open>luhnCheck\<close> returns \<open>false\<close> for every string that holds a code unit that is not
  a decimal digit and \<open>true\<close> for the empty string. The loop of \<open>findCreditCards\<close> with the
  log computes the map of the loop without it, so \<open>findCreditCards\<close> returns the values of
  its map. On the candidates of a text the log holds the digits of every candidate, in the
  order of the scan. Every logged argument, for every list of matches and every map, is a
  string of 13 to 19 decimal digits, and on such an argument the loop of \<open>luhnCheck\<close> never
  takes the early return.
\<close>

theorem luhnCheck_total:
  "((\<exists>c\<in>set s. \<not> isDigit c) \<longrightarrow> luhnCheck s = False) \<and>
   luhnCheck [] = True \<and>
   fst (findCreditCardsLogged text ms unique calls) = findCreditCardsLoop text ms unique \<and>
   findCreditCards text =
     Some (mapValues (fst (findCreditCardsLogged text (scan CARD_CANDIDATE_RE text) [] []))) \<and>
   snd (findCreditCardsLogged text (scan CARD_CANDIDATE_RE text) [] []) =
     map (\<lambda>m. digitsOnly (trim (m0 m))) (scan CARD_CANDIDATE_RE text) \<and>
   (\<forall>ds\<in>set (snd (findCreditCardsLogged text ms unique [])).
      list_all isDigit ds \<and> 13 \<le> length ds \<and> length ds \<le> 19 \<and>
      luhnLoop (rev ds) 0 False \<noteq> None)"
proof (intro conjI impI ballI)
  assume "\<exists>c\<in>set s. \<not> isDigit c"
  then have "\<exists>c\<in>set (rev s). \<not> isDigit c" by simp
  then have "luhnLoop (rev s) 0 False = None" by (rule luhnLoop_nondigit)
  then show "luhnCheck s = False" by (simp add: luhnCheck_def)
next
  show "luhnCheck [] = True" by (simp add: luhnCheck_def)
next
  show "fst (findCreditCardsLogged text ms unique calls) = findCreditCardsLoop text ms unique"
    by (rule findCreditCardsLogged_fst)
next
  show "findCreditCards text =
     Some (mapValues (fst (findCreditCardsLogged text (scan CARD_CANDIDATE_RE text) [] [])))"
    by (rule findCreditCards_logged)
next
  show "snd (findCreditCardsLogged text (scan CARD_CANDIDATE_RE text) [] []) =
     map (\<lambda>m. digitsOnly (trim (m0 m))) (scan CARD_CANDIDATE_RE text)"
    unfolding findCreditCardsLogged_snd card_scan_all_checked by simp
next
  fix ds assume ds: "ds \<in> set (snd (findCreditCardsLogged text ms unique []))"
  from logged_call_digits[OF ds]
  show "list_all isDigit ds" "13 \<le> length ds" "length ds \<le> 19"
    "luhnLoop (rev ds) 0 False \<noteq> None" by blast+
qed

theorem luhnCheck_total_witness:
  "(\<exists>c\<in>set ''4532 0151''. \<not> isDigit c) \<and> luhnCheck ''4532 0151'' = False \<and>
   findCreditCardsLogged ''4532-0151-1283-0366'' (scan CARD_CANDIDATE_RE ''4532-0151-1283-0366'') [] [] =
     ([(''4532015112830366'', ''4532-0151-1283-0366'')], [''4532015112830366'']) \<and>
   findCreditCards ''4532-0151-1283-0366'' = Some [''4532-0151-1283-0366''] \<and>
   list_all isDigit ''4532015112830366'' \<and>
   luhnLoop (rev ''4532015112830366'') 0 False \<noteq> None"
proof -
  have h1: "\<exists>c\<in>set ''4532 0151''. \<not> isDigit c" by code_simp
  have h2: "findCreditCardsLogged ''4532-0151-1283-0366''
      (scan CARD_CANDIDATE_RE ''4532-0151-1283-0366'') [] [] =
     ([(''4532015112830366'', ''4532-0151-1283-0366'')], [''4532015112830366''])"
    by code_simp
  then have h3: "''4532015112830366'' \<in> set (snd (findCreditCardsLogged ''4532-0151-1283-0366''
      (scan CARD_CANDIDATE_RE ''4532-0151-1283-0366'') [] []))"
    by simp
  note t = luhnCheck_total[of "''4532 0151''" "''4532-0151-1283-0366''"
      "scan CARD_CANDIDATE_RE ''4532-0151-1283-0366''" "[]" "[]"]
  from t h1 have a: "luhnCheck ''4532 0151'' = False" by blast
  from t h3 have b: "list_all isDigit ''4532015112830366'' \<and>
      luhnLoop (rev ''4532015112830366'') 0 False \<noteq> None" by blast
  from t have "findCreditCards ''4532-0151-1283-0366'' =
     Some (mapValues (fst (findCreditCardsLogged ''4532-0151-1283-0366''
       (scan CARD_CANDIDATE_RE ''4532-0151-1283-0366'') [] [])))" by blast
  then have c: "findCreditCards ''4532-0151-1283-0366'' = Some [''4532-0151-1283-0366'']"
    unfolding h2 by (simp add: mapValues_def)
  from h1 a h2 b c show ?thesis by blast
qed

text \<open>
  C4. \<open>isValidIban\<close> returns \<open>true\<close> for a string exactly when the string has the strict
  shape and, after its first four code units are moved to the end and every letter is
  replaced by its two decimal digits, the remainder modulo 97 computed digit by digit is 1.
  That remainder is the remainder of the decimal number that the digits spell.
\<close>

theorem isValidIban_mod97:
  "(isValidIban s \<longleftrightarrow> ibanShape s \<and> mod97 (ibanDigits (drop 4 s @ take 4 s)) = 1) \<and>
   mod97 (ibanDigits (drop 4 s @ take 4 s)) = decimalValue (ibanDigits (drop 4 s @ take 4 s)) mod 97"
  using isValidIban_iff[of s] mod97_decimalValue by (simp add: rearranged_def)

text \<open>
  C7. \<open>isValidIban\<close> accepts \<open>GB82WEST12345698765432\<close> and rejects every string that
  differs from it in exactly one digit, replaced by another decimal digit.
\<close>

theorem iban_example_single_digit:
  "isValidIban ''GB82WEST12345698765432'' \<and>
   (\<forall>i < length ''GB82WEST12345698765432''. \<forall>c.
      isDigit (''GB82WEST12345698765432'' ! i) \<and> isDigit c \<and> c \<noteq> ''GB82WEST12345698765432'' ! i
      \<longrightarrow> \<not> isValidIban (''GB82WEST12345698765432''[i := c]))"
proof -
  have v: "isValidIban ''GB82WEST12345698765432''" by code_simp
  have "\<not> isValidIban (gbIban[i := c])"
    if i: "i < 22" and a: "isDigit (gbIban ! i)" and dc: "isDigit c" and ne: "c \<noteq> gbIban ! i" for i c
  proof -
    from i have "i \<in> set [0..<22]" by simp
    with gbIban_mutations have "list_all (\<lambda>c. \<not> isDigit (gbIban ! i) \<or> c = gbIban ! i \<or>
       ibanLoop (drop 4 (gbIban[i := c]) @ take 4 (gbIban[i := c])) 0 \<noteq> Some 1) ''0123456789''"
      unfolding list_all_iff by blast
    moreover from dc have "c \<in> set ''0123456789''" by (simp only: isDigit_set)
    ultimately have "ibanLoop (drop 4 (gbIban[i := c]) @ take 4 (gbIban[i := c])) 0 \<noteq> Some 1"
      using a ne unfolding list_all_iff by blast
    then show ?thesis by (simp add: isValidIban_def Let_def)
  qed
  with v show ?thesis unfolding gbIban_def by simp
qed

theorem iban_example_single_digit_witness:
  "2 < length ''GB82WEST12345698765432'' \<and> isDigit (''GB82WEST12345698765432'' ! 2) \<and>
   isDigit CHR ''9'' \<and> CHR ''9'' \<noteq> ''GB82WEST12345698765432'' ! 2 \<and>
   ''GB82WEST12345698765432''[2 := CHR ''9''] = ''GB92WEST12345698765432'' \<and>
   \<not> isValidIban ''GB92WEST12345698765432''"
proof -
  have h: "2 < length ''GB82WEST12345698765432''" "isDigit (''GB82WEST12345698765432'' ! 2)"
    "isDigit CHR ''9''" "CHR ''9'' \<noteq> ''GB82WEST12345698765432'' ! 2"
    "''GB82WEST12345698765432''[2 := CHR ''9''] = ''GB92WEST12345698765432''"
    by code_simp+
  from iban_example_single_digit h show ?thesis by metis
qed

text \<open>
  C8. For every text \<open>findSensitiveMatches\<close> returns a list, and every match in it has a
  value that is not empty and has no white space at its start or at its end.
\<close>

theorem values_nonempty_trimmed:
  "\<exists>ms. findSensitiveMatches text = Some ms \<and>
     (\<forall>m\<in>set ms. val m \<noteq> [] \<and> trim (val m) = val m \<and>
        \<not> isSpace (hd (val m)) \<and> \<not> isSpace (last (val m)))"
proof -
  let ?ms = "the (findSensitiveMatches text)"
  have eq: "findSensitiveMatches text = Some ?ms"
    by (simp add: findSensitiveMatches_eq)
  have "clean (val m)" if "m \<in> set ?ms" for m
    using that unfolding findSensitiveMatches_eq option.sel set_append Un_iff set_tagged
    by (elim disjE conjE) (erule families_clean)+
  with eq show ?thesis unfolding clean_def by blast
qed


theorem values_nonempty_trimmed_witness:
  "findSensitiveMatches ''To: a@b.co '' = Some [\<lparr>ty = Email, val = ''a@b.co''\<rparr>] \<and>
   ''a@b.co'' \<noteq> [] \<and> trim ''a@b.co'' = ''a@b.co'' \<and>
   \<not> isSpace (hd ''a@b.co'') \<and> \<not> isSpace (last ''a@b.co'')"
proof -
  have e: "findSensitiveMatches ''To: a@b.co '' = Some [\<lparr>ty = Email, val = ''a@b.co''\<rparr>]"
    by code_simp
  from values_nonempty_trimmed[of "''To: a@b.co ''"] e show ?thesis by auto
qed

text \<open>
  C1, as the code has it. For every text the list returned by \<open>findSensitiveMatches\<close> is
  the concatenation of the results of the families in the fixed order email, ssn (direct,
  then last four), phone, card, bank (IBAN, routing, account, sort code), insurance policy,
  employee id, medical record number. The result of a family holds, for every key, the value
  of the first candidate with that key, in the order of the scan, and a scan yields its
  matches from left to right without overlap.
\<close>

theorem families_in_code_order:
  "findSensitiveMatches text = Some
     (tagged Email (map snd (entries uniqueCand EMAIL_RE text)) @
      tagged Ssn (map snd (entries uniqueCand SSN_RE text)) @
      tagged Ssn (map snd (entries last4Cand SSN_LAST4_CONTEXT_RE text)) @
      tagged Phone (map snd (entries uniqueCand PHONE_RE text)) @
      tagged Card (map snd (entries (cardCand text) CARD_CANDIDATE_RE text)) @
      tagged Bank (map snd (entries ibanCand IBAN_CANDIDATE_RE text) @
                   map snd (entries routingCand ROUTING_RE text) @
                   map snd (entries accountCand ACCOUNT_RE text) @
                   map snd (entries sortCand SORT_CODE_RE text)) @
      tagged InsurancePolicy (map snd (entries uniqueCand INS_POLICY_RE text)) @
      tagged EmployeeId (map snd (entries uniqueCand EMPLOYEE_ID_RE text)) @
      tagged MedicalRecordNumber (map snd (entries uniqueCand MRN_RE text))) \<and>
   (\<forall>re. sorted_wrt (\<lambda>a b. index a + length (m0 a) \<le> index b) (scan re text))"
  using findSensitiveMatches_eq[of "text"] scan_sorted[of _ "text"] by blast

text \<open>
  C1, as the specification states it, with the phone numbers before the social security
  numbers: the text \<open>123-45-6789,2125551212\<close> holds a social security number and a phone
  number, and the code returns the social security number first.
\<close>

theorem families_in_spec_order_counterexample:
  "findSensitiveMatches ''123-45-6789,2125551212'' =
     Some [\<lparr>ty = Ssn, val = ''123-45-6789''\<rparr>, \<lparr>ty = Phone, val = ''2125551212''\<rparr>] \<and>
   familiesInSpecOrder ''123-45-6789,2125551212'' =
     [\<lparr>ty = Phone, val = ''2125551212''\<rparr>, \<lparr>ty = Ssn, val = ''123-45-6789''\<rparr>] \<and>
   findSensitiveMatches ''123-45-6789,2125551212'' \<noteq>
     Some (familiesInSpecOrder ''123-45-6789,2125551212'')"
  by code_simp

text \<open>
  C2. For every text, no two matches of the same type in the list returned by
  \<open>findSensitiveMatches\<close> have the same normalized key. The list is the list of the values
  of the entries of the families, each entry with its type and its key; the pairs of type and
  key are distinct; the key of an entry is the lower-cased trimmed value for email, ssn,
  phone and the prefix-coded families, the digits of the value for card, and for bank
  \<open>routing:\<close>, \<open>account:\<close> or \<open>sort:\<close> followed by the digits, or the normalized IBAN; and
  the value kept under a key is the value of the first candidate with that key.
\<close>

theorem normalized_keys_distinct:
  "findSensitiveMatches text =
     Some (map (\<lambda>e. \<lparr>ty = fst e, val = snd (snd e)\<rparr>) (keyedMatches text)) \<and>
   distinct (map (\<lambda>e. (fst e, fst (snd e))) (keyedMatches text)) \<and>
   (\<forall>e\<in>set (keyedMatches text). normalizedKey (fst e) (fst (snd e)) (snd (snd e))) \<and>
   (\<forall>cand re. map_of (entries cand re text) = map_of (List.map_filter cand (scan re text)))"
  using findSensitiveMatches_keyed[of "text"] distinct_keyedMatches[of "text"]
    keyedMatches_normalizedKey[of _ "text"]
  by (simp add: entries_def map_of_firstByKey)


theorem normalized_keys_distinct_witness:
  "keyedMatches ''A@b.co, a@B.CO'' = [(Email, ''a@b.co'', ''A@b.co'')] \<and>
   findSensitiveMatches ''A@b.co, a@B.CO'' = Some [\<lparr>ty = Email, val = ''A@b.co''\<rparr>] \<and>
   normalizedKey Email ''a@b.co'' ''A@b.co''"
proof -
  have k: "keyedMatches ''A@b.co, a@B.CO'' = [(Email, ''a@b.co'', ''A@b.co'')]"
    by code_simp
  from normalized_keys_distinct[of "''A@b.co, a@B.CO''"] show ?thesis
    unfolding k by simp
qed

text \<open>
  C5. Every candidate of the contextual scan for the last four digits of a social security
  number carries a group of exactly four decimal digits, and the group is among the values
  that \<open>findSsnLast4\<close> returns exactly when its number does not lie between 1900 and 2099;
  nothing else is returned. The text \<open>social security number ending in 8234\<close> yields
  \<open>8234\<close>, and \<open>social security number ending in 1999\<close> yields nothing.
\<close>

theorem ssn_last4_year_exclusion:
  "(\<exists>vs. findSsnLast4 text = Some vs \<and>
      (\<forall>m\<in>set (scan SSN_LAST4_CONTEXT_RE text).
         length (group1 m) = 4 \<and> list_all isDigit (group1 m) \<and>
         (group1 m \<in> set vs \<longleftrightarrow>
            \<not> (1900 \<le> Number (group1 m) \<and> Number (group1 m) \<le> 2099))) \<and>
      (\<forall>v\<in>set vs. \<exists>m\<in>set (scan SSN_LAST4_CONTEXT_RE text). v = group1 m)) \<and>
   findSsnLast4 ''social security number ending in 8234'' = Some [''8234''] \<and>
   findSsnLast4 ''social security number ending in 1999'' = Some []"
proof -
  let ?ms = "scan SSN_LAST4_CONTEXT_RE text"
  let ?vs = "map snd (entries last4Cand SSN_LAST4_CONTEXT_RE text)"
  have set_vs: "set ?vs = {v. \<exists>m\<in>set ?ms. \<exists>k. last4Cand m = Some (k, v)}"
  proof -
    have "set ?vs = snd ` set (List.map_filter last4Cand ?ms)"
    proof -
      have "snd ` set (firstByKey kvs) = snd ` set kvs"
        if "\<forall>e\<in>set kvs. fst e = snd e" for kvs :: jsmap
      proof -
        from that set_firstByKey[of kvs] have "\<forall>e\<in>set (firstByKey kvs). fst e = snd e" by blast
        then have "snd ` set (firstByKey kvs) = fst ` set (firstByKey kvs)" by auto
        also have "\<dots> = fst ` set kvs" by (rule keys_firstByKey)
        also from that have "\<dots> = snd ` set kvs" by auto
        finally show ?thesis .
      qed
      moreover have "\<forall>e\<in>set (List.map_filter last4Cand ?ms). fst e = snd e"
        using last4Cand_Some by (fastforce simp: set_map_filter)
      ultimately show ?thesis by (simp add: entries_def)
    qed
    then show ?thesis by (auto simp: set_map_filter image_iff) force+
  qed
  have 1: "findSsnLast4 text = Some ?vs" by (rule findSsnLast4_eq)
  have 2: "length (group1 m) = 4 \<and> list_all isDigit (group1 m) \<and>
         (group1 m \<in> set ?vs \<longleftrightarrow> \<not> (1900 \<le> Number (group1 m) \<and> Number (group1 m) \<le> 2099))"
    if m: "m \<in> set ?ms" for m
  proof -
    have "group1 m \<in> set ?vs \<longleftrightarrow> \<not> (1900 \<le> Number (group1 m) \<and> Number (group1 m) \<le> 2099)"
    proof
      assume "group1 m \<in> set ?vs"
      then obtain m' k where m': "m' \<in> set ?ms" and c: "last4Cand m' = Some (k, group1 m)"
        unfolding set_vs by blast
      from c last4Cand_scan[OF m'] have "group1 m' = group1 m"
        and "\<not> (1900 \<le> Number (group1 m') \<and> Number (group1 m') \<le> 2099)"
        by (auto split: if_splits)
      then show "\<not> (1900 \<le> Number (group1 m) \<and> Number (group1 m) \<le> 2099)" by simp
    next
      assume "\<not> (1900 \<le> Number (group1 m) \<and> Number (group1 m) \<le> 2099)"
      with last4Cand_scan[OF m] have "last4Cand m = Some (group1 m, group1 m)" by simp
      with m show "group1 m \<in> set ?vs" unfolding set_vs by blast
    qed
    with last4_group[OF m] show ?thesis by simp
  qed
  have 3: "\<exists>m\<in>set ?ms. v = group1 m" if "v \<in> set ?vs" for v
  proof -
    from that obtain m k where m: "m \<in> set ?ms" and c: "last4Cand m = Some (k, v)"
      unfolding set_vs by blast
    from c last4Cand_scan[OF m] have "v = group1 m" by (auto split: if_splits)
    with m show ?thesis by blast
  qed
  have 4: "findSsnLast4 ''social security number ending in 8234'' = Some [''8234'']"
    by code_simp
  have 5: "findSsnLast4 ''social security number ending in 1999'' = Some []"
    by code_simp
  from 1 2 3 4 5 show ?thesis by blast
qed


theorem ssn_last4_year_exclusion_witness:
  "scan SSN_LAST4_CONTEXT_RE ''SSN: 8234'' = [\<lparr>index = 0, m0 = ''SSN: 8234'', m1 = Some ''8234''\<rparr>] \<and>
   findSsnLast4 ''SSN: 8234'' = Some [''8234''] \<and>
   length ''8234'' = 4 \<and> list_all isDigit ''8234'' \<and>
   \<not> (1900 \<le> Number ''8234'' \<and> Number ''8234'' \<le> 2099)"
proof -
  have h: "scan SSN_LAST4_CONTEXT_RE ''SSN: 8234'' = [\<lparr>index = 0, m0 = ''SSN: 8234'', m1 = Some ''8234''\<rparr>]"
    "findSsnLast4 ''SSN: 8234'' = Some [''8234'']"
    by code_simp+
  from ssn_last4_year_exclusion[of "''SSN: 8234''"] show ?thesis
    unfolding h by (simp add: group1_def)
qed

text \<open>
  C6, as the code has it. The bank matches that come from the sort-code scanner are the last
  part of the result of \<open>findBankAccounts\<close>. The value of each is the text of the capture
  group as it stands in the document: three groups of two decimal digits with at most one dash
  or space between two groups. The six digits without the separators are the key only.
\<close>

theorem sort_code_value_is_surface_text:
  "findBankAccounts text = Some
     (map snd (entries ibanCand IBAN_CANDIDATE_RE text) @
      map snd (entries routingCand ROUTING_RE text) @
      map snd (entries accountCand ACCOUNT_RE text) @
      map snd (entries sortCand SORT_CODE_RE text)) \<and>
   (\<forall>e\<in>set (entries sortCand SORT_CODE_RE text).
      sortCodeText (snd e) \<and> fst e = ''sort:'' @ digitsOnly (snd e) \<and>
      length (digitsOnly (snd e)) = 6 \<and> list_all isDigit (digitsOnly (snd e)) \<and>
      (\<exists>m\<in>set (scan SORT_CODE_RE text). snd e = group1 m))"
proof (intro conjI ballI)
  show "findBankAccounts text = Some
     (map snd (entries ibanCand IBAN_CANDIDATE_RE text) @
      map snd (entries routingCand ROUTING_RE text) @
      map snd (entries accountCand ACCOUNT_RE text) @
      map snd (entries sortCand SORT_CODE_RE text))"
    by (rule findBankAccounts_eq)
next
  fix e assume "e \<in> set (entries sortCand SORT_CODE_RE text)"
  from set_entries[OF this] obtain m where m: "m \<in> set (scan SORT_CODE_RE text)"
    and c: "sortCand m = Some e" by blast
  from c sortCand_scan[OF m] have e: "e = (''sort:'' @ digitsOnly (group1 m), group1 m)" by simp
  from sort_group[OF m] e show "sortCodeText (snd e)" by simp
  from e show "fst e = ''sort:'' @ digitsOnly (snd e)" by simp
  from sortCodeText_props[OF sort_group[OF m]] e
  show "length (digitsOnly (snd e)) = 6" "list_all isDigit (digitsOnly (snd e))" by simp_all
  from m e show "\<exists>m\<in>set (scan SORT_CODE_RE text). snd e = group1 m" by auto
qed

theorem sort_code_value_is_surface_text_witness:
  "entries sortCand SORT_CODE_RE ''Sort code: 12-34 56.'' = [(''sort:123456'', ''12-34 56'')] \<and>
   findBankAccounts ''Sort code: 12-34 56.'' = Some [''12-34 56''] \<and>
   sortCodeText ''12-34 56'' \<and> digitsOnly ''12-34 56'' = ''123456''"
proof -
  have h: "entries sortCand SORT_CODE_RE ''Sort code: 12-34 56.'' = [(''sort:123456'', ''12-34 56'')]"
    "findBankAccounts ''Sort code: 12-34 56.'' = Some [''12-34 56'']"
    "digitsOnly ''12-34 56'' = ''123456''"
    by code_simp+
  from sort_code_value_is_surface_text[of "''Sort code: 12-34 56.''"] show ?thesis
    unfolding h by simp
qed

text \<open>
  C6, as the specification states it: the value would be six digits without separators. On
  the text \<open>sort code 12-34-56\<close> the value is \<open>12-34-56\<close>.
\<close>

theorem sort_code_bare_digits_counterexample:
  "findSensitiveMatches ''sort code 12-34-56'' = Some [\<lparr>ty = Bank, val = ''12-34-56''\<rparr>] \<and>
   \<not> (length ''12-34-56'' = 6 \<and> list_all isDigit ''12-34-56'')"
  by code_simp

text \<open>
  C3, as the code has it. Every card candidate has 13 to 19 digits, and it is accepted
  exactly when its digits pass the Luhn checksum or the window of 50 code units before and
  after it, in lower case, holds one of the keywords as a whole word, where the two words of
  a keyword may be separated by any run of white space or by none. On strings of digits
  \<open>luhnCheck\<close> is the checksum of the specification; \<open>4532015112830366\<close> passes and
  \<open>4532015112830367\<close> does not. The accepted candidates are the ones that
  \<open>findCreditCards\<close> returns, once for each sequence of digits.
\<close>

theorem card_acceptance:
  "(\<forall>m\<in>set (scan CARD_CANDIDATE_RE text).
      13 \<le> length (digitsOnly (trim (m0 m))) \<and> length (digitsOnly (trim (m0 m))) \<le> 19 \<and>
      ((\<exists>e. cardCand text m = Some e) \<longleftrightarrow>
         luhnSpec (digitsOnly (trim (m0 m))) \<or>
         wholeWordIn keywordForms (cardContext text (index m) (trim (m0 m))))) \<and>
   findCreditCards text = Some (map snd (entries (cardCand text) CARD_CANDIDATE_RE text)) \<and>
   (list_all isDigit s \<longrightarrow> luhnCheck s = luhnSpec s) \<and>
   luhnCheck ''4532015112830366'' \<and> \<not> luhnCheck ''4532015112830367''"
proof -
  have 1: "luhnCheck ''4532015112830366''" by code_simp
  have 2: "\<not> luhnCheck ''4532015112830367''" by code_simp
  from cardCand_scan[of _ "text"] findCreditCards_eq[of "text"] luhnCheck_spec[of s] 1 2
  show ?thesis by blast
qed

theorem card_acceptance_witness:
  "scan CARD_CANDIDATE_RE ''visa 4532015112830367'' =
     [\<lparr>index = 5, m0 = ''4532015112830367'', m1 = None\<rparr>] \<and>
   cardCand ''visa 4532015112830367'' \<lparr>index = 5, m0 = ''4532015112830367'', m1 = None\<rparr> =
     Some (''4532015112830367'', ''4532015112830367'') \<and>
   list_all isDigit ''4532015112830367'' \<and> \<not> luhnSpec ''4532015112830367'' \<and>
   wholeWordIn keywordForms (cardContext ''visa 4532015112830367'' 5 ''4532015112830367'')"
proof -
  have h: "scan CARD_CANDIDATE_RE ''visa 4532015112830367'' =
     [\<lparr>index = 5, m0 = ''4532015112830367'', m1 = None\<rparr>]"
    "cardCand ''visa 4532015112830367'' \<lparr>index = 5, m0 = ''4532015112830367'', m1 = None\<rparr> =
     Some (''4532015112830367'', ''4532015112830367'')"
    "trim ''4532015112830367'' = ''4532015112830367''"
    "digitsOnly ''4532015112830367'' = ''4532015112830367''"
    by code_simp+
  have d: "list_all isDigit ''4532015112830367''" by code_simp
  from card_acceptance[of "''visa 4532015112830367''" "''4532015112830367''"] d show ?thesis
    by (simp add: h) blast
qed

text \<open>
  C3, as the specification states it, with the keywords as plain strings somewhere in the
  window. After \<open>visas\<close> the window holds the string \<open>visa\<close>, and the candidate, which
  fails the Luhn checksum, is rejected. After \<open>creditcard\<close> the window holds none of the
  seven strings, and the same candidate is accepted.
\<close>

theorem card_keyword_substring_counterexample:
  "scan CARD_CANDIDATE_RE ''visas 4532015112830367'' =
     [\<lparr>index = 6, m0 = ''4532015112830367'', m1 = None\<rparr>] \<and>
   \<not> luhnCheck ''4532015112830367'' \<and>
   containsKeyword (cardContext ''visas 4532015112830367'' 6 ''4532015112830367'') \<and>
   cardCand ''visas 4532015112830367'' \<lparr>index = 6, m0 = ''4532015112830367'', m1 = None\<rparr> = None \<and>
   findCreditCards ''visas 4532015112830367'' = Some [] \<and>
   scan CARD_CANDIDATE_RE ''creditcard 4532015112830367'' =
     [\<lparr>index = 11, m0 = ''4532015112830367'', m1 = None\<rparr>] \<and>
   \<not> containsKeyword (cardContext ''creditcard 4532015112830367'' 11 ''4532015112830367'') \<and>
   cardCand ''creditcard 4532015112830367'' \<lparr>index = 11, m0 = ''4532015112830367'', m1 = None\<rparr> =
     Some (''4532015112830367'', ''4532015112830367'') \<and>
   findCreditCards ''creditcard 4532015112830367'' = Some [''4532015112830367'']"
  by code_simp

end
